theory Spec2Isabelle
  imports Complex_Main "HOL-Library.Multiset" "HOL-Library.List_Lexorder" "HOL-Library.Char_ord"
begin

section \<open>Errors and values of the Python program\<close>

text \<open>
  The exceptions the modelled code can raise. \<open>OSError\<close> stands for every failure of
  \<^verbatim>\<open>Image.open\<close> (a missing or undecodable file), \<open>IndexError\<close> for an index past the end
  of a tuple or list, \<open>ValueError\<close> for a tuple unpacked into the wrong number of names,
  \<open>LibraryError\<close> for anything the external metric raises.
\<close>

datatype error = IndexError | ValueError | OSError | LibraryError

definition bind_err :: "error + 'a \<Rightarrow> ('a \<Rightarrow> error + 'b) \<Rightarrow> error + 'b" where
  "bind_err m f = (case m of Inl e \<Rightarrow> Inl e | Inr v \<Rightarrow> f v)"

text \<open>
  A numpy array: its shape and its elements by multi-index. Pixel values are read as
  integers; the metric converts them to floating point before it subtracts, so no
  subtraction wraps.
\<close>

record ndarray =
  shape :: "nat list"
  item :: "nat list \<Rightarrow> int"

text \<open>Indexing a tuple with a non-negative constant: \<^verbatim>\<open>t[i]\<close>.\<close>

definition py_index :: "'a list \<Rightarrow> nat \<Rightarrow> error + 'a" where
  "py_index xs i = (if i < length xs then Inr (xs ! i) else Inl IndexError)"

definition in_bounds :: "nat list \<Rightarrow> nat list \<Rightarrow> bool" where
  "in_bounds shp idx = list_all2 (\<lambda>i n. i < n) idx shp"

text \<open>
  \<^verbatim>\<open>image[:x, :y, :c]\<close>: the first three axes are cut to \<open>x\<close>, \<open>y\<close>, \<open>c\<close> entries (a
  stop past the end is clamped), further axes are kept whole, and the elements keep
  their indices. An array with fewer than three axes has too many indices. The result
  holds the elements of the region only.
\<close>

definition slice3 :: "nat \<Rightarrow> nat \<Rightarrow> nat \<Rightarrow> ndarray \<Rightarrow> error + ndarray" where
  "slice3 x y c a =
     (case shape a of
        s0 # s1 # s2 # rest \<Rightarrow>
          (let shp = min x s0 # min y s1 # min c s2 # rest
           in Inr \<lparr>shape = shp, item = (\<lambda>idx. if in_bounds shp idx then item a idx else 0)\<rparr>)
      | _ \<Rightarrow> Inl IndexError)"

section \<open>The similarity comparator\<close>

text \<open>
  \<^verbatim>\<open>sewar.full_ref.mse\<close> is a library outside the repository: it is a parameter \<open>mse\<close> of
  the model, a call that raises or returns a number. Its floating-point result is read
  as the real number it denotes, so \<^verbatim>\<open>res < 500\<close> is the comparison of that number
  with 500. (The mean of an empty region is not a number; a decoded image has no axis
  of length 0, so its regions are not empty.)
\<close>

type_synonym metric = "ndarray \<Rightarrow> ndarray \<Rightarrow> error + real"

definition compare_image :: "metric \<Rightarrow> ndarray \<Rightarrow> ndarray \<Rightarrow> error + bool" where
  "compare_image mse image1 image2 =
     bind_err (py_index (shape image1) 0) (\<lambda>h1.
     bind_err (py_index (shape image2) 0) (\<lambda>h2.
     bind_err (py_index (shape image1) 1) (\<lambda>w1.
     bind_err (py_index (shape image2) 1) (\<lambda>w2.
     bind_err (py_index (shape image1) 2) (\<lambda>c1.
     bind_err (py_index (shape image2) 2) (\<lambda>c2.
       let x = min h1 h2; y = min w1 w2; c = min c1 c2 in
       bind_err (slice3 x y c image1) (\<lambda>r1.
       bind_err (slice3 x y c image2) (\<lambda>r2.
       bind_err (mse r1 r2) (\<lambda>res. Inr (res < 500))))))))))"

text \<open>
  Modelled from the spec: the metric itself, which the repository imports and does not
  define. The glossary has it as the average of the squared per-pixel differences over
  the compared region, here in exact arithmetic. It is used where a concrete metric is
  evaluated; the comparator above takes any metric.
\<close>

fun indices :: "nat list \<Rightarrow> nat list list" where
  "indices [] = [[]]"
| "indices (n # ns) = concat (map (\<lambda>i. map ((#) i) (indices ns)) [0..<n])"

definition mse_mean :: metric where
  "mse_mean a b =
     Inr (sum_list (map (\<lambda>idx. (real_of_int (item a idx - item b idx))\<^sup>2) (indices (shape a)))
          / real (length (indices (shape a))))"

text \<open>The common top-left region of two three-axis images, as the claim words it.\<close>

definition common_region :: "ndarray \<Rightarrow> ndarray \<Rightarrow> ndarray \<Rightarrow> ndarray" where
  "common_region a b img =
     (let shp = [min (shape a ! 0) (shape b ! 0), min (shape a ! 1) (shape b ! 1),
                 min (shape a ! 2) (shape b ! 2)]
      in \<lparr>shape = shp, item = (\<lambda>idx. if in_bounds shp idx then item img idx else 0)\<rparr>)"

section \<open>The grouping engine\<close>

text \<open>
  Paths are strings. The file system maps a path to the array \<^verbatim>\<open>np.array(Image.open(path))\<close>
  decodes from it, or to nothing when the file cannot be opened or decoded. It does not
  change during a run, so the memoising \<^verbatim>\<open>lru_cache\<close> of \<^verbatim>\<open>get_image\<close> returns what a fresh
  decode returns and is left out.
\<close>

type_synonym path = string
type_synonym filesystem = "path \<Rightarrow> ndarray option"

definition get_image :: "filesystem \<Rightarrow> path \<Rightarrow> error + ndarray" where
  "get_image fs image_path = (case fs image_path of None \<Rightarrow> Inl OSError | Some a \<Rightarrow> Inr a)"

text \<open>
  The list comprehension building \<^verbatim>\<open>artboards\<close>: every path with \<^verbatim>\<open>shape[:2]\<close> of its
  image. The folders are given by their contents, in the order \<^verbatim>\<open>glob\<close> lists them.
\<close>

fun artboards_of :: "filesystem \<Rightarrow> path list \<Rightarrow> error + (path \<times> nat list) list" where
  "artboards_of fs [] = Inr []"
| "artboards_of fs (artboard_path # ps) =
     bind_err (get_image fs artboard_path) (\<lambda>img.
     bind_err (artboards_of fs ps) (\<lambda>rest.
       Inr ((artboard_path, take 2 (shape img)) # rest)))"

text \<open>
  \<^verbatim>\<open>size_groups.setdefault(key, []).append(path)\<close> on a dictionary that keeps insertion
  order: an association list with distinct keys, a new key added at the end.
\<close>

type_synonym buckets = "((nat \<times> nat) \<times> path list) list"

fun setdefault_append :: "'k \<Rightarrow> 'v \<Rightarrow> ('k \<times> 'v list) list \<Rightarrow> ('k \<times> 'v list) list" where
  "setdefault_append k v [] = [(k, [v])]"
| "setdefault_append k v ((k', vs) # rest) =
     (if k' = k then (k', vs @ [v]) # rest else (k', vs) # setdefault_append k v rest)"

text \<open>
  The loop \<^verbatim>\<open>for artboard_path, width, height in artboards\<close>: unpacking a tuple that does
  not have three components raises.
\<close>

fun size_groups_loop :: "(path \<times> nat list) list \<Rightarrow> buckets \<Rightarrow> error + buckets" where
  "size_groups_loop [] size_groups = Inr size_groups"
| "size_groups_loop ((artboard_path, dims) # rest) size_groups =
     (case dims of
        [width, height] \<Rightarrow>
          size_groups_loop rest (setdefault_append (width, height) artboard_path size_groups)
      | _ \<Rightarrow> Inl ValueError)"

definition size_groups_of :: "filesystem \<Rightarrow> path list list \<Rightarrow> error + buckets" where
  "size_groups_of fs sketch_folders =
     bind_err (artboards_of fs (concat sketch_folders)) (\<lambda>artboards.
       size_groups_loop artboards [])"

text \<open>
  The clustering loops return, beside their result, the calls of \<^verbatim>\<open>compare_image\<close> they
  made, in order: a call \<^verbatim>\<open>compare_image(image, get_image(group[0]))\<close> is logged as the
  pair (artboard, group[0]) of the paths whose images it received. The log is kept
  when an exception ends the run.
\<close>

type_synonym calls = "(path \<times> path) list"

text \<open>
  The inner loop \<^verbatim>\<open>for group in sub_image_groups\<close> with the \<^verbatim>\<open>if not match\<close> after it, for
  one artboard whose image is already decoded.
\<close>

fun scan_groups ::
  "filesystem \<Rightarrow> metric \<Rightarrow> ndarray \<Rightarrow> path \<Rightarrow> path list list \<Rightarrow> calls \<times> (error + path list list)" where
  "scan_groups fs mse img artboard [] = ([], Inr [[artboard]])"
| "scan_groups fs mse img artboard (grp # rest) =
     (case py_index grp 0 of
        Inl e \<Rightarrow> ([], Inl e)
      | Inr first \<Rightarrow>
         (case get_image fs first of
            Inl e \<Rightarrow> ([], Inl e)
          | Inr image2 \<Rightarrow>
             (case compare_image mse img image2 of
                Inl e \<Rightarrow> ([(artboard, first)], Inl e)
              | Inr True \<Rightarrow> ([(artboard, first)], Inr ((grp @ [artboard]) # rest))
              | Inr False \<Rightarrow>
                 (case scan_groups fs mse img artboard rest of
                    (cs, r) \<Rightarrow> ((artboard, first) # cs, map_sum id ((#) grp) r)))))"

text \<open>The loop \<^verbatim>\<open>for artboard in artboard_path_list\<close> over one bucket.\<close>

fun cluster_bucket ::
  "filesystem \<Rightarrow> metric \<Rightarrow> path list \<Rightarrow> path list list \<Rightarrow> calls \<times> (error + path list list)" where
  "cluster_bucket fs mse [] sub_image_groups = ([], Inr sub_image_groups)"
| "cluster_bucket fs mse (artboard # rest) sub_image_groups =
     (case get_image fs artboard of
        Inl e \<Rightarrow> ([], Inl e)
      | Inr img \<Rightarrow>
         (case scan_groups fs mse img artboard sub_image_groups of
            (cs, Inl e) \<Rightarrow> (cs, Inl e)
          | (cs, Inr groups') \<Rightarrow>
             (case cluster_bucket fs mse rest groups' of (cs', r) \<Rightarrow> (cs @ cs', r))))"

text \<open>The loop over \<^verbatim>\<open>size_groups.items()\<close>, extending \<^verbatim>\<open>image_groups\<close> bucket by bucket.\<close>

fun merge_buckets ::
  "filesystem \<Rightarrow> metric \<Rightarrow> buckets \<Rightarrow> path list list \<Rightarrow> calls \<times> (error + path list list)" where
  "merge_buckets fs mse [] image_groups = ([], Inr image_groups)"
| "merge_buckets fs mse ((key, artboard_path_list) # rest) image_groups =
     (case cluster_bucket fs mse artboard_path_list [] of
        (cs, Inl e) \<Rightarrow> (cs, Inl e)
      | (cs, Inr sub_image_groups) \<Rightarrow>
         (case merge_buckets fs mse rest (image_groups @ sub_image_groups) of
            (cs', r) \<Rightarrow> (cs @ cs', r)))"

definition merge_artboard_group ::
  "filesystem \<Rightarrow> metric \<Rightarrow> path list list \<Rightarrow> calls \<times> (error + path list list)" where
  "merge_artboard_group fs mse sketch_folders =
     (case size_groups_of fs sketch_folders of
        Inl e \<Rightarrow> ([], Inl e)
      | Inr size_groups \<Rightarrow> merge_buckets fs mse size_groups [])"

section \<open>The manifest and the materializer\<close>

text \<open>
  The manifest written by the main block: the groups with more than one member. Reading
  the JSON file back gives the list that was written.
\<close>

definition manifest :: "filesystem \<Rightarrow> metric \<Rightarrow> path list list \<Rightarrow> error + path list list" where
  "manifest fs mse sketch_folders =
     map_sum id (filter (\<lambda>x. length x > 1)) (snd (merge_artboard_group fs mse sketch_folders))"

text \<open>
  \<^verbatim>\<open>Image.open(x).size\<close> is (width, height) of the image whose array has the shape
  (height, width) or (height, width, channels).
\<close>

definition pil_size :: "ndarray \<Rightarrow> nat \<times> nat" where
  "pil_size a = (shape a ! 1, shape a ! 0)"

fun open_all :: "filesystem \<Rightarrow> path list \<Rightarrow> error + ndarray list" where
  "open_all fs [] = Inr []"
| "open_all fs (x # xs) =
     bind_err (get_image fs x) (\<lambda>img.
     bind_err (open_all fs xs) (\<lambda>rest. Inr (img # rest)))"

text \<open>
  The composite of one group: the size of the new image and, for every member in order,
  the corner \<^verbatim>\<open>(i * image.size[0], 0)\<close> it is pasted at.
\<close>

record composite =
  canvas_size :: "nat \<times> nat"
  pastes :: "(nat \<times> nat) list"

definition materialize_group :: "filesystem \<Rightarrow> path list \<Rightarrow> error + composite" where
  "materialize_group fs grp =
     bind_err (open_all fs grp) (\<lambda>group_images.
     bind_err (py_index group_images 0) (\<lambda>first.
       Inr \<lparr>canvas_size = (fst (pil_size first) * length group_images, snd (pil_size first)),
            pastes = map (\<lambda>(i, img). (i * fst (pil_size img), 0)) (enumerate 0 group_images)\<rparr>))"

section \<open>The error log and the missing fonts\<close>

text \<open>
  A Python string is the list of its code points; \<open>char\<close> holds the code points below
  256, which covers the ASCII text of the export tool's diagnostics.
\<close>

definition newline :: char where
  "newline = CHR 0x0A"

definition dquote :: char where
  "dquote = CHR 0x22"

text \<open>The code points below 256 that \<^verbatim>\<open>str.strip()\<close> removes.\<close>

definition py_isspace :: "char \<Rightarrow> bool" where
  "py_isspace c = ((of_char c :: nat) \<in> {9, 10, 11, 12, 13, 28, 29, 30, 31, 32, 133, 160})"

definition strip :: "string \<Rightarrow> string" where
  "strip s = rev (dropWhile py_isspace (rev (dropWhile py_isspace s)))"

text \<open>\<^verbatim>\<open>s.split("\n")\<close>: one piece more than there are newlines.\<close>

fun split_nl :: "string \<Rightarrow> string list" where
  "split_nl [] = [[]]"
| "split_nl (c # cs) =
     (if c = newline then [] # split_nl cs
      else (case split_nl cs of [] \<Rightarrow> [[c]] | l # ls \<Rightarrow> (c # l) # ls))"

text \<open>
  \<^verbatim>\<open>process\<close> after \<^verbatim>\<open>sketch_queue.join()\<close>. Its input is the \<^verbatim>\<open>res.stderr\<close> of every job, in
  the order the workers finished them; a worker puts a diagnostic on the error queue
  when it is not empty.
\<close>

definition error_queue :: "string list \<Rightarrow> string list" where
  "error_queue results = filter (\<lambda>stderr. stderr \<noteq> []) results"

fun drain :: "string list \<Rightarrow> string set \<Rightarrow> string set" where
  "drain [] error_message_set = error_message_set"
| "drain (stderr # queue) error_message_set =
     drain queue
       (fold (\<lambda>line acc. insert (line @ [newline]) acc) (split_nl (strip stderr)) error_message_set)"

definition process :: "string list \<Rightarrow> string set" where
  "process results = drain (error_queue results) {}"

text \<open>
  \<^verbatim>\<open>f.writelines(list(error_message_set))\<close>: the file holds the elements of the set, each
  once, in an order the program does not fix.
\<close>

definition written_lines :: "string set \<Rightarrow> string list \<Rightarrow> bool" where
  "written_lines error_message_set file_lines =
     (distinct file_lines \<and> set file_lines = error_message_set)"

text \<open>
  The lines of a diagnostic as the specification words them: the string cut at its
  newlines, a final newline ending the last line.
\<close>

definition diagnostic_lines_spec :: "string \<Rightarrow> string list" where
  "diagnostic_lines_spec d =
     (let ls = split_nl d in if last ls = [] then butlast ls else ls)"

definition error_log_spec :: "string list \<Rightarrow> string set" where
  "error_log_spec results =
     set (concat (map (\<lambda>d. map (\<lambda>l. l @ [newline]) (diagnostic_lines_spec d))
                      (filter (\<lambda>d. d \<noteq> []) results)))"

text \<open>
  \<^verbatim>\<open>re.match(r".+Client requested name \"(((?!\").)+)\"", line)\<close>, returning group 1.
  The tail of the pattern, tried at one position: the literal text, then the longest run
  of characters that are neither a quote nor a newline (shorter runs are followed by a
  character of the run, never by the closing quote), which must not be empty and must
  be followed by a quote.
\<close>

definition pattern_literal :: string where
  "pattern_literal = ''Client requested name '' @ [dquote]"

definition match_tail :: "string \<Rightarrow> string option" where
  "match_tail s =
     (if take (length pattern_literal) s = pattern_literal then
        (let rest = drop (length pattern_literal) s;
             name = takeWhile (\<lambda>c. c \<noteq> dquote \<and> c \<noteq> newline) rest;
             after = dropWhile (\<lambda>c. c \<noteq> dquote \<and> c \<noteq> newline) rest
         in if name \<noteq> [] \<and> take 1 after = [dquote] then Some name else None)
      else None)"

text \<open>
  The leading \<^verbatim>\<open>.+\<close> is greedy: it first takes every character up to the first newline
  and gives them back one at a time, down to one character, until the tail matches.
\<close>

fun try_from :: "nat \<Rightarrow> string \<Rightarrow> string option" where
  "try_from 0 line = None"
| "try_from (Suc k) line =
     (case match_tail (drop (Suc k) line) of
        Some name \<Rightarrow> Some name
      | None \<Rightarrow> try_from k line)"

definition re_match_font :: "string \<Rightarrow> string option" where
  "re_match_font line = try_from (length (takeWhile (\<lambda>c. c \<noteq> newline) line)) line"

text \<open>\<^verbatim>\<open>get_missing_font\<close> on the lines \<^verbatim>\<open>f.readlines()\<close> returns.\<close>

fun collect_fonts :: "string list \<Rightarrow> string set \<Rightarrow> string set" where
  "collect_fonts [] missing_fonts = missing_fonts"
| "collect_fonts (line # lines) missing_fonts =
     collect_fonts lines
       (case re_match_font line of Some name \<Rightarrow> insert name missing_fonts | None \<Rightarrow> missing_fonts)"

definition get_missing_font :: "string list \<Rightarrow> string list" where
  "get_missing_font lines = sorted_list_of_set (collect_fonts lines {})"

section \<open>Vocabulary of the properties\<close>

text \<open>The comparator on two paths, and the paths it accepts as similar.\<close>

definition compare_paths :: "filesystem \<Rightarrow> metric \<Rightarrow> path \<Rightarrow> path \<Rightarrow> error + bool" where
  "compare_paths fs mse p q =
     bind_err (get_image fs p) (\<lambda>a. bind_err (get_image fs q) (\<lambda>b. compare_image mse a b))"

definition similar :: "filesystem \<Rightarrow> metric \<Rightarrow> path \<Rightarrow> path \<Rightarrow> bool" where
  "similar fs mse p q = (compare_paths fs mse p q = Inr True)"

definition comparable :: "filesystem \<Rightarrow> metric \<Rightarrow> path list \<Rightarrow> bool" where
  "comparable fs mse ps =
     list_all (\<lambda>p. list_all (\<lambda>q. compare_paths fs mse p q = Inr True
                                 \<or> compare_paths fs mse p q = Inr False) ps) ps"

text \<open>The bucket key of a path: the first two components of its image's shape.\<close>

definition dims :: "filesystem \<Rightarrow> path \<Rightarrow> (nat \<times> nat) option" where
  "dims fs p =
     (case fs p of
        None \<Rightarrow> None
      | Some a \<Rightarrow> (case take 2 (shape a) of [width, height] \<Rightarrow> Some (width, height) | _ \<Rightarrow> None))"

text \<open>
  The greedy step as the specification words it: the position of the first open group
  whose first member the path matches, the groups after the step, and the
  representatives the path is compared against on the way.
\<close>

definition first_match :: "(path \<Rightarrow> path \<Rightarrow> bool) \<Rightarrow> path \<Rightarrow> path list list \<Rightarrow> nat" where
  "first_match sim p gs = length (takeWhile (\<lambda>g. \<not> sim p (hd g)) gs)"

definition greedy_place :: "(path \<Rightarrow> path \<Rightarrow> bool) \<Rightarrow> path \<Rightarrow> path list list \<Rightarrow> path list list" where
  "greedy_place sim p gs =
     (let k = first_match sim p gs
      in if k < length gs then gs[k := gs ! k @ [p]] else gs @ [[p]])"

definition greedy_compared :: "(path \<Rightarrow> path \<Rightarrow> bool) \<Rightarrow> path \<Rightarrow> path list list \<Rightarrow> calls" where
  "greedy_compared sim p gs = map (\<lambda>g. (p, hd g)) (take (Suc (first_match sim p gs)) gs)"

fun greedy_run :: "(path \<Rightarrow> path \<Rightarrow> bool) \<Rightarrow> path list \<Rightarrow> path list list \<Rightarrow> calls \<times> path list list" where
  "greedy_run sim [] gs = ([], gs)"
| "greedy_run sim (p # ps) gs =
     (case greedy_run sim ps (greedy_place sim p gs) of
        (cs, gs') \<Rightarrow> (greedy_compared sim p gs @ cs, gs'))"

text \<open>
  A group whose members after the first all match its first member, and a bucket list
  whose every path has the dimensions of its key.
\<close>

definition represented :: "filesystem \<Rightarrow> metric \<Rightarrow> path list \<Rightarrow> bool" where
  "represented fs mse g = (g \<noteq> [] \<and> list_all (\<lambda>m. similar fs mse m (hd g)) (tl g))"

definition keyed :: "filesystem \<Rightarrow> buckets \<Rightarrow> bool" where
  "keyed fs sg = (\<forall>b\<in>set sg. \<forall>p\<in>set (snd b). dims fs p = Some (fst b))"

section \<open>Concrete inputs\<close>

text \<open>
  Images the properties are evaluated on: a one-channel image of one colour, a
  two-channel 100 x 100 image with one value per channel, and a two-axis grayscale
  array.
\<close>

definition solid :: "nat \<Rightarrow> nat \<Rightarrow> int \<Rightarrow> ndarray" where
  "solid h w v = \<lparr>shape = [h, w, 1], item = (\<lambda>idx. v)\<rparr>"

definition flat100 :: "int \<Rightarrow> int \<Rightarrow> ndarray" where
  "flat100 u v = \<lparr>shape = [100, 100, 2], item = (\<lambda>idx. if last idx = 0 then u else v)\<rparr>"

definition gray2 :: ndarray where
  "gray2 = \<lparr>shape = [2, 2], item = (\<lambda>idx. 0)\<rparr>"

definition fs_sizes :: filesystem where
  "fs_sizes = [''A'' \<mapsto> solid 100 100 0, ''B'' \<mapsto> solid 100 100 3, ''C'' \<mapsto> solid 200 200 0]"

text \<open>
  File systems of three images of one size: in \<open>fs_abc\<close> the second matches the first
  and the third matches neither; in \<open>fs_chain\<close> the second and the third match the
  first and not each other; in \<open>fs_strip\<close> all three match and are wider than high.
\<close>

definition fs_abc :: filesystem where
  "fs_abc = [''A'' \<mapsto> solid 100 100 0, ''B'' \<mapsto> solid 100 100 10, ''C'' \<mapsto> solid 100 100 100]"

definition fs_chain :: filesystem where
  "fs_chain = [''A'' \<mapsto> solid 100 100 20, ''B'' \<mapsto> solid 100 100 0, ''C'' \<mapsto> solid 100 100 40]"

definition fs_strip :: filesystem where
  "fs_strip = [''A'' \<mapsto> solid 50 80 0, ''B'' \<mapsto> solid 50 80 3, ''C'' \<mapsto> solid 50 80 5]"

text \<open>
  The text \<^verbatim>\<open>Client requested name "<font>"\<close>, a log whose lines are that text alone, and
  the same log with a prefix on every line.
\<close>

definition font_note :: "string \<Rightarrow> string" where
  "font_note name = pattern_literal @ name @ [dquote]"

definition bare_log :: "string list" where
  "bare_log = [font_note ''Helvetica Neue'' @ [newline], font_note ''Arial'' @ [newline],
               font_note ''Helvetica Neue'' @ [newline]]"

definition prefixed_log :: "string list" where
  "prefixed_log = map (\<lambda>line. ''CoreText note: '' @ line) bare_log"

section \<open>Facts about the model\<close>

subsection \<open>Comparator and metric\<close>

lemma bind_err_simps [simp]:
  "bind_err (Inl e) f = Inl e"
  "bind_err (Inr v) f = f v"
  by (simp_all add: bind_err_def)

lemma slice3_common:
  assumes "length (shape a) = 3" "length (shape b) = 3"
  shows "slice3 (min (shape a ! 0) (shape b ! 0)) (min (shape a ! 1) (shape b ! 1)) (min (shape a ! 2) (shape b ! 2)) a = Inr (common_region a b a)"
   and "slice3 (min (shape a ! 0) (shape b ! 0)) (min (shape a ! 1) (shape b ! 1)) (min (shape a ! 2) (shape b ! 2)) b = Inr (common_region a b b)"
proof -
  obtain a0 a1 a2 where a: "shape a = [a0, a1, a2]"
    using assms(1) by (auto simp: length_Suc_conv numeral_3_eq_3)
  obtain b0 b1 b2 where b: "shape b = [b0, b1, b2]"
    using assms(2) by (auto simp: length_Suc_conv numeral_3_eq_3)
  show "slice3 (min (shape a ! 0) (shape b ! 0)) (min (shape a ! 1) (shape b ! 1)) (min (shape a ! 2) (shape b ! 2)) a = Inr (common_region a b a)"
    by (auto simp: slice3_def common_region_def a b Let_def min_def)
  show "slice3 (min (shape a ! 0) (shape b ! 0)) (min (shape a ! 1) (shape b ! 1)) (min (shape a ! 2) (shape b ! 2)) b = Inr (common_region a b b)"
    by (auto simp: slice3_def common_region_def a b Let_def min_def)
qed

lemma compare_image_three:
  assumes "length (shape a) = 3" "length (shape b) = 3"
  shows "compare_image mse a b = bind_err (mse (common_region a b a) (common_region a b b)) (\<lambda>res. Inr (res < 500))"
  using assms slice3_common[OF assms]
  by (simp add: compare_image_def py_index_def Let_def)

lemma in_bounds_indices: "idx \<in> set (indices shp) \<Longrightarrow> in_bounds shp idx"
  by (induction shp arbitrary: idx) (auto simp: in_bounds_def)

lemma sum_list_const_real: "sum_list (map (\<lambda>x. c) xs) = real (length xs) * (c::real)"
  by (induction xs) (simp_all add: algebra_simps)

lemma length_indices: "length (indices shp) = prod_list shp"
proof (induction shp)
  case Nil
  show ?case by simp
next
  case (Cons n ns)
  have "sum_list (map (\<lambda>i. prod_list ns) [0..<n]) = n * prod_list ns"
    by (induction n) simp_all
  with Cons show ?case
    by (simp add: length_concat comp_def)
qed

lemma sum_list_concat_map: "sum_list (concat xss) = sum_list (map sum_list xss)"
  by (induction xss) simp_all

lemma sum_indices_Cons:
  "sum_list (map f (indices (n # ns))) =
   sum_list (map (\<lambda>i. sum_list (map (\<lambda>r. f (i # r)) (indices ns))) [0..<n])"
  by (simp add: map_concat sum_list_concat_map comp_def)

lemma sum_indices_last:
  fixes f :: "nat list \<Rightarrow> real"
  assumes "\<And>i j k. f [i, j, k] = g k"
  shows "sum_list (map f (indices [h, w, c])) = real h * (real w * sum_list (map g [0..<c]))"
proof -
  have one: "sum_list (map (\<lambda>r. f (i # j # r)) (indices [c])) = sum_list (map g [0..<c])" for i j
    by (simp add: sum_list_concat_map comp_def assms)
  have two: "sum_list (map (\<lambda>r. f (i # r)) (indices [w, c])) = real w * sum_list (map g [0..<c])" for i
    unfolding sum_indices_Cons [of "\<lambda>r. f (i # r)" w "[c]"] one
    by (simp add: sum_list_const_real)
  show ?thesis
    unfolding sum_indices_Cons [of f h "[w, c]"] two
    by (simp add: sum_list_const_real)
qed

lemma mse_mean_region:
  assumes "shape ra = shp" "shape rb = shp"
    and "\<And>idx. in_bounds shp idx \<Longrightarrow> (real_of_int (item ra idx - item rb idx))\<^sup>2 = f idx"
  shows "mse_mean ra rb = Inr (sum_list (map f (indices shp)) / real (prod_list shp))"
proof -
  have eq: "map (\<lambda>idx. (real_of_int (item ra idx - item rb idx))\<^sup>2) (indices shp) = map f (indices shp)"
    by (rule map_cong) (use assms(3) in_bounds_indices in auto)
  show ?thesis
    unfolding mse_mean_def assms(1) length_indices eq by (rule refl)
qed

lemma mse_flat100_any:
  "mse_mean (common_region (flat100 u v) (flat100 u' v') (flat100 u v))
            (common_region (flat100 u v) (flat100 u' v') (flat100 u' v'))
   = Inr ((real_of_int (u - u'))\<^sup>2 / 2 + (real_of_int (v - v'))\<^sup>2 / 2)"
proof -
  let ?f = "\<lambda>idx. (real_of_int (if last idx = 0 then u - u' else v - v'))\<^sup>2"
  have "mse_mean (common_region (flat100 u v) (flat100 u' v') (flat100 u v))
            (common_region (flat100 u v) (flat100 u' v') (flat100 u' v'))
     = Inr (sum_list (map ?f (indices [100, 100, 2])) / real (prod_list [100, 100, 2]))"
    by (rule mse_mean_region) (simp_all add: common_region_def flat100_def Let_def)
  also have "sum_list (map ?f (indices [100, 100, 2]))
     = real 100 * (real 100 * sum_list (map (\<lambda>k. (real_of_int (if k = 0 then u - u' else v - v'))\<^sup>2) [0..<2]))"
    by (rule sum_indices_last) simp
  finally show ?thesis
    by (simp add: upt_rec [of 0] upt_rec [of 1] numeral_2_eq_2)
qed

subsection \<open>The clustering loops\<close>

lemma py_index_0: "py_index g 0 = (case g of [] \<Rightarrow> Inl IndexError | x # _ \<Rightarrow> Inr x)"
  by (cases g) (simp_all add: py_index_def)

lemma scan_groups_calls:
  "scan_groups fs mse img p gs = (cs, r) \<Longrightarrow> (x, y) \<in> set cs \<Longrightarrow> x = p \<and> y \<in> set (concat gs)"
proof (induction gs arbitrary: cs r)
  case Nil
  then show ?case by simp
next
  case (Cons g gs)
  then show ?case
    by (cases g) (auto simp: py_index_0 split: sum.splits bool.splits prod.splits)
qed

lemma scan_groups_result:
  assumes "scan_groups fs mse img p gs = (cs, Inr gs')"
  shows "(\<exists>pre g post img2. gs = pre @ g # post \<and> g \<noteq> [] \<and> gs' = pre @ (g @ [p]) # post
            \<and> fs (hd g) = Some img2 \<and> compare_image mse img img2 = Inr True
            \<and> cs = map (\<lambda>g. (p, hd g)) (pre @ [g]) \<and> (\<forall>h\<in>set pre. h \<noteq> []))
       \<or> (gs' = gs @ [[p]] \<and> cs = map (\<lambda>g. (p, hd g)) gs \<and> (\<forall>h\<in>set gs. h \<noteq> []))"
  using assms
proof (induction gs arbitrary: cs gs')
  case Nil
  then show ?case by simp
next
  case (Cons g gs)
  from Cons.prems obtain first rest where g: "g = first # rest"
    by (cases g) (auto simp: py_index_0)
  from Cons.prems g obtain img2 where img2: "fs first = Some img2"
    by (auto simp: py_index_0 get_image_def split: option.splits)
  from Cons.prems g img2 obtain b where b: "compare_image mse img img2 = Inr b"
    by (cases "compare_image mse img img2") (auto simp: py_index_0 get_image_def)
  show ?case
  proof (cases b)
    case True
    with Cons.prems g img2 b have "gs' = (g @ [p]) # gs" "cs = [(p, first)]"
      by (auto simp: py_index_0 get_image_def)
    then have "g # gs = [] @ g # gs \<and> g \<noteq> [] \<and> gs' = [] @ (g @ [p]) # gs
            \<and> fs (hd g) = Some img2 \<and> compare_image mse img img2 = Inr True
            \<and> cs = map (\<lambda>g. (p, hd g)) ([] @ [g]) \<and> (\<forall>h\<in>set []. h \<noteq> [])"
      using g img2 b True by simp
    then show ?thesis by blast
  next
    case False
    obtain cs0 r0 where rec: "scan_groups fs mse img p gs = (cs0, r0)"
      by (cases "scan_groups fs mse img p gs")
    with Cons.prems g img2 b False obtain gs0 where r0: "r0 = Inr gs0" and gs': "gs' = g # gs0"
      and cs: "cs = (p, first) # cs0"
      by (cases r0) (auto simp: py_index_0 get_image_def)
    from Cons.IH [OF rec [unfolded r0]]
    show ?thesis
    proof
      assume "\<exists>pre g post img2. gs = pre @ g # post \<and> g \<noteq> [] \<and> gs0 = pre @ (g @ [p]) # post
            \<and> fs (hd g) = Some img2 \<and> compare_image mse img img2 = Inr True
            \<and> cs0 = map (\<lambda>g. (p, hd g)) (pre @ [g]) \<and> (\<forall>h\<in>set pre. h \<noteq> [])"
      then obtain pre h post i2 where h: "gs = pre @ h # post" "h \<noteq> []" "gs0 = pre @ (h @ [p]) # post"
        "fs (hd h) = Some i2" "compare_image mse img i2 = Inr True"
        "cs0 = map (\<lambda>g. (p, hd g)) (pre @ [h])" "\<forall>h\<in>set pre. h \<noteq> []"
        by blast
      then have "g # gs = (g # pre) @ h # post \<and> h \<noteq> [] \<and> gs' = (g # pre) @ (h @ [p]) # post
            \<and> fs (hd h) = Some i2 \<and> compare_image mse img i2 = Inr True
            \<and> cs = map (\<lambda>g. (p, hd g)) ((g # pre) @ [h]) \<and> (\<forall>h\<in>set (g # pre). h \<noteq> [])"
        using g gs' cs by simp
      then show ?thesis by blast
    next
      assume "gs0 = gs @ [[p]] \<and> cs0 = map (\<lambda>g. (p, hd g)) gs \<and> (\<forall>h\<in>set gs. h \<noteq> [])"
      then show ?thesis using g gs' cs by simp
    qed
  qed
qed

lemma scan_groups_mset:
  assumes "scan_groups fs mse img p gs = (cs, Inr gs')"
  shows "mset (concat gs') = mset (concat gs) + {#p#}"
  using scan_groups_result [OF assms] by auto

lemma scan_groups_represented:
  assumes "scan_groups fs mse img p gs = (cs, Inr gs')" and "fs p = Some img"
    and "\<forall>g\<in>set gs. represented fs mse g"
  shows "\<forall>g\<in>set gs'. represented fs mse g"
  using scan_groups_result [OF assms(1)] assms(2,3)
  by (auto simp: represented_def similar_def compare_paths_def get_image_def)

lemma scan_groups_heads:
  assumes "scan_groups fs mse img p gs = (cs, Inr gs')"
  shows "hd ` set gs \<subseteq> hd ` set gs' \<and> snd ` set cs \<subseteq> hd ` set gs'"
  using scan_groups_result [OF assms] by (auto simp: image_iff)

lemma cluster_bucket_calls:
  "cluster_bucket fs mse ps gs = (cs, r) \<Longrightarrow> (x, y) \<in> set cs \<Longrightarrow>
   x \<in> set ps \<and> y \<in> set (concat gs) \<union> set ps"
proof (induction ps arbitrary: gs cs r)
  case Nil
  then show ?case by simp
next
  case (Cons p ps)
  from Cons.prems obtain img where img: "fs p = Some img"
    by (auto simp: get_image_def split: option.splits)
  obtain cs1 r1 where scan: "scan_groups fs mse img p gs = (cs1, r1)"
    by (cases "scan_groups fs mse img p gs")
  show ?case
  proof (cases r1)
    case (Inl e)
    with Cons.prems img scan have "cs = cs1"
      by (simp add: get_image_def)
    with scan_groups_calls [OF scan] Cons.prems(2) show ?thesis by auto
  next
    case (Inr gs1)
    obtain cs2 r2 where rec: "cluster_bucket fs mse ps gs1 = (cs2, r2)"
      by (cases "cluster_bucket fs mse ps gs1")
    with Cons.prems img scan Inr have cs: "cs = cs1 @ cs2"
      by (simp add: get_image_def)
    have sub: "set (concat gs1) = set (concat gs) \<union> {p}"
      using arg_cong [OF scan_groups_mset [OF scan [unfolded Inr]], of set_mset] by simp
    from Cons.prems(2) cs consider "(x, y) \<in> set cs1" | "(x, y) \<in> set cs2" by auto
    then show ?thesis
    proof cases
      case 1
      with scan_groups_calls [OF scan] show ?thesis by auto
    next
      case 2
      with Cons.IH [OF rec] sub show ?thesis by auto
    qed
  qed
qed

lemma cluster_bucket_result:
  assumes "cluster_bucket fs mse ps gs = (cs, Inr gs')"
    and "\<forall>g\<in>set gs. represented fs mse g"
  shows "mset (concat gs') = mset (concat gs) + mset ps
       \<and> (\<forall>g\<in>set gs'. represented fs mse g)
       \<and> hd ` set gs \<subseteq> hd ` set gs' \<and> snd ` set cs \<subseteq> hd ` set gs'"
  using assms
proof (induction ps arbitrary: gs cs)
  case Nil
  then show ?case by simp
next
  case (Cons p ps)
  from Cons.prems obtain img where img: "fs p = Some img"
    by (auto simp: get_image_def split: option.splits)
  obtain cs1 r1 where scan: "scan_groups fs mse img p gs = (cs1, r1)"
    by (cases "scan_groups fs mse img p gs")
  obtain cs2 r2 where rec: "cluster_bucket fs mse ps (projr r1) = (cs2, r2)"
    by (cases "cluster_bucket fs mse ps (projr r1)")
  from Cons.prems(1) img scan rec obtain gs1 where r1: "r1 = Inr gs1"
    and cs: "cs = cs1 @ cs2" and r2: "r2 = Inr gs'"
    by (cases r1) (auto simp: get_image_def)
  note scan' = scan [unfolded r1]
  have rec': "cluster_bucket fs mse ps gs1 = (cs2, Inr gs')"
    using rec r1 r2 by simp
  have rep1: "\<forall>g\<in>set gs1. represented fs mse g"
    using scan_groups_represented [OF scan' img Cons.prems(2)] .
  note ih = Cons.IH [OF rec' rep1]
  note hds = scan_groups_heads [OF scan']
  have "mset (concat gs') = mset (concat gs) + mset (p # ps)"
    using ih scan_groups_mset [OF scan'] by simp
  moreover have "\<forall>g\<in>set gs'. represented fs mse g"
    using ih by simp
  moreover have "hd ` set gs \<subseteq> hd ` set gs'"
    using ih hds by blast
  moreover have "snd ` set cs \<subseteq> hd ` set gs'"
    using ih hds cs by (simp add: image_Un) blast
  ultimately show ?case by simp
qed

lemma merge_buckets_calls:
  "merge_buckets fs mse bs igs = (cs, r) \<Longrightarrow> (x, y) \<in> set cs \<Longrightarrow>
   \<exists>b\<in>set bs. x \<in> set (snd b) \<and> y \<in> set (snd b)"
proof (induction bs arbitrary: igs cs r)
  case Nil
  then show ?case by simp
next
  case (Cons b bs)
  obtain key ps where b: "b = (key, ps)" by (cases b)
  obtain cs1 r1 where cl: "cluster_bucket fs mse ps [] = (cs1, r1)"
    by (cases "cluster_bucket fs mse ps []")
  show ?case
  proof (cases r1)
    case (Inl e)
    with Cons.prems b cl have "cs = cs1" by simp
    with cluster_bucket_calls [OF cl] Cons.prems(2) b show ?thesis by auto
  next
    case (Inr sub)
    obtain cs2 r2 where rec: "merge_buckets fs mse bs (igs @ sub) = (cs2, r2)"
      by (cases "merge_buckets fs mse bs (igs @ sub)")
    with Cons.prems b cl Inr have "cs = cs1 @ cs2" by simp
    with Cons.prems(2) consider "(x, y) \<in> set cs1" | "(x, y) \<in> set cs2" by auto
    then show ?thesis
    proof cases
      case 1
      with cluster_bucket_calls [OF cl] b show ?thesis by auto
    next
      case 2
      with Cons.IH [OF rec] show ?thesis by auto
    qed
  qed
qed

lemma merge_buckets_result:
  assumes "merge_buckets fs mse bs igs = (cs, Inr out)"
    and "\<forall>g\<in>set igs. represented fs mse g"
  shows "mset (concat out) = mset (concat igs) + mset (concat (map snd bs))
       \<and> (\<forall>g\<in>set out. represented fs mse g)
       \<and> (\<forall>g\<in>set out. g \<in> set igs \<or> (\<exists>b\<in>set bs. set g \<subseteq> set (snd b)))
       \<and> hd ` set igs \<subseteq> hd ` set out \<and> snd ` set cs \<subseteq> hd ` set out"
  using assms
proof (induction bs arbitrary: igs cs)
  case Nil
  then show ?case by simp
next
  case (Cons b bs)
  obtain key ps where b: "b = (key, ps)" by (cases b)
  obtain cs1 r1 where cl: "cluster_bucket fs mse ps [] = (cs1, r1)"
    by (cases "cluster_bucket fs mse ps []")
  obtain cs2 r2 where rec: "merge_buckets fs mse bs (igs @ projr r1) = (cs2, r2)"
    by (cases "merge_buckets fs mse bs (igs @ projr r1)")
  from Cons.prems(1) b cl rec obtain sub where r1: "r1 = Inr sub"
    and cs: "cs = cs1 @ cs2" and r2: "r2 = Inr out"
    by (cases r1) auto
  note cl' = cl [unfolded r1]
  have rec': "merge_buckets fs mse bs (igs @ sub) = (cs2, Inr out)"
    using rec r1 r2 by simp
  have "\<forall>g\<in>set []. represented fs mse g" by simp
  note clr = cluster_bucket_result [OF cl' this]
  have rep: "\<forall>g\<in>set (igs @ sub). represented fs mse g"
    using clr Cons.prems(2) by auto
  note ih = Cons.IH [OF rec' rep]
  have subset: "\<forall>g\<in>set sub. set g \<subseteq> set ps"
  proof
    fix g assume "g \<in> set sub"
    then have "set g \<subseteq> set (concat sub)" by auto
    also have "set (concat sub) = set ps"
      using arg_cong [OF conjunct1 [OF clr], of set_mset] by simp
    finally show "set g \<subseteq> set ps" .
  qed
  have "mset (concat out) = mset (concat igs) + mset (concat (map snd (b # bs)))"
    using ih clr b by simp
  moreover have "\<forall>g\<in>set out. represented fs mse g"
    using ih by simp
  moreover have "\<forall>g\<in>set out. g \<in> set igs \<or> (\<exists>b'\<in>set (b # bs). set g \<subseteq> set (snd b'))"
  proof
    fix g assume "g \<in> set out"
    with ih have "g \<in> set (igs @ sub) \<or> (\<exists>b\<in>set bs. set g \<subseteq> set (snd b))" by blast
    with subset b show "g \<in> set igs \<or> (\<exists>b'\<in>set (b # bs). set g \<subseteq> set (snd b'))"
      by auto
  qed
  moreover have "hd ` set igs \<subseteq> hd ` set out"
    using ih by auto
  moreover have "snd ` set cs \<subseteq> hd ` set out"
  proof -
    have "snd ` set cs1 \<subseteq> hd ` set sub" using clr by simp
    also have "\<dots> \<subseteq> hd ` set (igs @ sub)" by auto
    also have "\<dots> \<subseteq> hd ` set out" using ih by blast
    finally have "snd ` set cs1 \<subseteq> hd ` set out" .
    moreover have "snd ` set cs2 \<subseteq> hd ` set out" using ih by blast
    ultimately show ?thesis using cs by (simp add: image_Un)
  qed
  ultimately show ?case by blast
qed

subsection \<open>Bucketing\<close>

lemma artboards_of_result:
  "artboards_of fs ps = Inr arts \<Longrightarrow>
   map fst arts = ps \<and> (\<forall>(p, d)\<in>set arts. \<exists>a. fs p = Some a \<and> d = take 2 (shape a))"
proof (induction ps arbitrary: arts)
  case Nil
  then show ?case by simp
next
  case (Cons p ps)
  then show ?case
    by (auto simp: get_image_def bind_err_def split: option.splits sum.splits)
qed

lemma setdefault_append_keys:
  "map fst (setdefault_append k v sg) = (if k \<in> fst ` set sg then map fst sg else map fst sg @ [k])"
  by (induction sg) (fastforce simp: image_iff)+

lemma setdefault_append_distinct:
  "distinct (map fst sg) \<Longrightarrow> distinct (map fst (setdefault_append k v sg))"
  by (simp add: setdefault_append_keys)

lemma setdefault_append_mset:
  "mset (concat (map snd (setdefault_append k v sg))) = mset (concat (map snd sg)) + {#v#}"
  by (induction sg) auto

lemma setdefault_append_keyed:
  "keyed fs sg \<Longrightarrow> dims fs v = Some k \<Longrightarrow> keyed fs (setdefault_append k v sg)"
  by (induction sg) (auto simp: keyed_def split: if_splits)

lemma size_groups_loop_result:
  assumes "size_groups_loop arts sg = Inr sg'"
    and "\<forall>(p, d)\<in>set arts. \<exists>a. fs p = Some a \<and> d = take 2 (shape a)"
    and "distinct (map fst sg)" and "keyed fs sg"
  shows "distinct (map fst sg') \<and> keyed fs sg'
       \<and> mset (concat (map snd sg')) = mset (concat (map snd sg)) + mset (map fst arts)"
  using assms
proof (induction arts arbitrary: sg)
  case Nil
  then show ?case by simp
next
  case (Cons x arts)
  obtain p d where x: "x = (p, d)" by (cases x)
  from Cons.prems(1) x obtain w h where d: "d = [w, h]"
    and rec: "size_groups_loop arts (setdefault_append (w, h) p sg) = Inr sg'"
    by (auto split: list.splits)
  from Cons.prems(2) x d obtain a where "fs p = Some a" "take 2 (shape a) = [w, h]"
    by auto
  then have "dims fs p = Some (w, h)"
    by (simp add: dims_def)
  then have k: "keyed fs (setdefault_append (w, h) p sg)"
    using Cons.prems(4) by (rule setdefault_append_keyed [rotated])
  have dk: "distinct (map fst (setdefault_append (w, h) p sg))"
    using Cons.prems(3) by (rule setdefault_append_distinct)
  from Cons.prems(2) have "\<forall>(p, d)\<in>set arts. \<exists>a. fs p = Some a \<and> d = take 2 (shape a)"
    by simp
  from Cons.IH [OF rec this dk k] show ?case
    by (simp add: x setdefault_append_mset)
qed

lemma size_groups_of_result:
  assumes "size_groups_of fs sketch_folders = Inr sg"
  shows "distinct (map fst sg) \<and> keyed fs sg
       \<and> mset (concat (map snd sg)) = mset (concat sketch_folders)"
proof -
  from assms obtain arts where arts: "artboards_of fs (concat sketch_folders) = Inr arts"
    and loop: "size_groups_loop arts [] = Inr sg"
    by (auto simp: size_groups_of_def bind_err_def split: sum.splits)
  note ar = artboards_of_result [OF arts]
  have "distinct (map fst ([] :: buckets))" "keyed fs []"
    by (simp_all add: keyed_def)
  from size_groups_loop_result [OF loop conjunct2 [OF ar] this] ar
  show ?thesis by simp
qed

subsection \<open>The greedy step\<close>

lemma first_match_Cons:
  "first_match sim p (g # gs) = (if sim p (hd g) then 0 else Suc (first_match sim p gs))"
  by (simp add: first_match_def)

lemma greedy_place_Nil: "greedy_place sim p [] = [[p]]"
  by (simp add: greedy_place_def first_match_def)

lemma greedy_place_Cons:
  "greedy_place sim p (g # gs) =
     (if sim p (hd g) then (g @ [p]) # gs else g # greedy_place sim p gs)"
  by (simp add: greedy_place_def first_match_Cons Let_def)

lemma greedy_compared_Nil: "greedy_compared sim p [] = []"
  by (simp add: greedy_compared_def)

lemma greedy_compared_Cons:
  "greedy_compared sim p (g # gs) =
     (p, hd g) # (if sim p (hd g) then [] else greedy_compared sim p gs)"
  by (simp add: greedy_compared_def first_match_Cons)

lemma compare_paths_Inr:
  assumes "compare_paths fs mse p q = Inr r"
  obtains a b where "fs p = Some a" "fs q = Some b" "compare_image mse a b = Inr r"
  using assms
  by (auto simp: compare_paths_def get_image_def bind_err_def split: option.splits)

lemma scan_groups_greedy:
  assumes "fs p = Some img"
    and "\<forall>g\<in>set gs. g \<noteq> [] \<and> (compare_paths fs mse p (hd g) = Inr True
                                 \<or> compare_paths fs mse p (hd g) = Inr False)"
  shows "scan_groups fs mse img p gs =
           (greedy_compared (similar fs mse) p gs, Inr (greedy_place (similar fs mse) p gs))"
  using assms(2)
proof (induction gs)
  case Nil
  show ?case by (simp add: greedy_place_Nil greedy_compared_Nil)
next
  case (Cons g gs)
  from Cons.prems obtain first rest where g: "g = first # rest"
    by (cases g) auto
  from Cons.prems g obtain r where r: "compare_paths fs mse p first = Inr r"
    by auto
  then obtain img2 where img2: "fs first = Some img2" and cmp: "compare_image mse img img2 = Inr r"
    using assms(1) by (auto elim!: compare_paths_Inr)
  have sim: "similar fs mse p first = r"
    using r by (simp add: similar_def)
  from Cons.prems have "\<forall>g\<in>set gs. g \<noteq> [] \<and> (compare_paths fs mse p (hd g) = Inr True
                                 \<or> compare_paths fs mse p (hd g) = Inr False)"
    by simp
  note ih = Cons.IH [OF this]
  show ?case
    by (cases r)
       (simp_all add: g py_index_0 get_image_def img2 cmp greedy_place_Cons greedy_compared_Cons sim ih)
qed

lemma greedy_place_nonempty:
  "\<forall>g\<in>set gs. g \<noteq> [] \<Longrightarrow> \<forall>g\<in>set (greedy_place sim p gs). g \<noteq> []"
  by (induction gs) (auto simp: greedy_place_Nil greedy_place_Cons)

lemma greedy_place_set:
  "set (concat (greedy_place sim p gs)) = insert p (set (concat gs))"
  by (induction gs) (auto simp: greedy_place_Nil greedy_place_Cons)

lemma comparable_iff:
  "comparable fs mse ps \<longleftrightarrow>
     (\<forall>p\<in>set ps. \<forall>q\<in>set ps. compare_paths fs mse p q = Inr True \<or> compare_paths fs mse p q = Inr False)"
  by (simp add: comparable_def list_all_iff)

lemma cluster_bucket_greedy:
  assumes "\<forall>p\<in>set (concat gs) \<union> set ps. \<forall>q\<in>set (concat gs) \<union> set ps.
             compare_paths fs mse p q = Inr True \<or> compare_paths fs mse p q = Inr False"
    and "\<forall>g\<in>set gs. g \<noteq> []"
  shows "cluster_bucket fs mse ps gs =
           (fst (greedy_run (similar fs mse) ps gs), Inr (snd (greedy_run (similar fs mse) ps gs)))"
  using assms
proof (induction ps arbitrary: gs)
  case Nil
  show ?case by simp
next
  case (Cons p ps)
  from Cons.prems(1) have "compare_paths fs mse p p = Inr True \<or> compare_paths fs mse p p = Inr False"
    by simp
  then obtain img where img: "fs p = Some img"
    by (auto elim: compare_paths_Inr)
  have "\<forall>g\<in>set gs. g \<noteq> [] \<and> (compare_paths fs mse p (hd g) = Inr True
                                 \<or> compare_paths fs mse p (hd g) = Inr False)"
  proof
    fix g assume g: "g \<in> set gs"
    with Cons.prems(2) have ne: "g \<noteq> []" by simp
    then have "hd g \<in> set g" by simp
    then have "hd g \<in> set (concat gs)" using g by auto
    with Cons.prems(1) ne
    show "g \<noteq> [] \<and> (compare_paths fs mse p (hd g) = Inr True
                                 \<or> compare_paths fs mse p (hd g) = Inr False)"
      by simp
  qed
  note scan = scan_groups_greedy [OF img this]
  let ?gs1 = "greedy_place (similar fs mse) p gs"
  have a: "\<forall>x\<in>set (concat ?gs1) \<union> set ps. \<forall>q\<in>set (concat ?gs1) \<union> set ps.
             compare_paths fs mse x q = Inr True \<or> compare_paths fs mse x q = Inr False"
  proof -
    have "set (concat ?gs1) \<union> set ps = set (concat gs) \<union> set (p # ps)"
      unfolding greedy_place_set by auto
    then show ?thesis using Cons.prems(1) by (simp only:)
  qed
  have b: "\<forall>g\<in>set ?gs1. g \<noteq> []"
    using Cons.prems(2) by (rule greedy_place_nonempty)
  note ih = Cons.IH [OF a b]
  show ?case
    by (simp add: get_image_def img scan ih split: prod.splits)
qed

subsection \<open>Evaluation on the concrete inputs\<close>

lemma compare_image_solid:
  assumes "0 < h" "0 < w"
  shows "compare_image mse_mean (solid h w u) (solid h w v) = Inr ((real_of_int (u - v))\<^sup>2 < 500)"
proof -
  let ?a = "solid h w u" and ?b = "solid h w v"
  have "mse_mean (common_region ?a ?b ?a) (common_region ?a ?b ?b)
      = Inr (sum_list (map (\<lambda>idx. (real_of_int (u - v))\<^sup>2) (indices [h, w, 1])) / real (prod_list [h, w, 1]))"
    by (rule mse_mean_region) (simp_all add: common_region_def solid_def Let_def)
  also have "\<dots> = Inr ((real_of_int (u - v))\<^sup>2)"
    unfolding sum_list_const_real length_map length_indices using assms by simp
  finally have m: "mse_mean (common_region ?a ?b ?a) (common_region ?a ?b ?b) = Inr ((real_of_int (u - v))\<^sup>2)" .
  have "length (shape ?a) = 3" "length (shape ?b) = 3"
    by (simp_all add: solid_def)
  from compare_image_three [OF this, of mse_mean] m show ?thesis
    by simp
qed

lemma shape_solid: "shape (solid h w v) = [h, w, 1]"
  by (simp add: solid_def)

lemma merge_fs_sizes:
  "merge_artboard_group fs_sizes mse_mean [[''A'', ''B''], [''C'']] = ([(''B'', ''A'')], Inr [[''A'', ''B''], [''C'']])"
  by (simp add: merge_artboard_group_def size_groups_of_def fs_sizes_def get_image_def py_index_0
        compare_image_solid shape_solid)

subsection \<open>The engine as a whole\<close>

lemma merge_artboard_group_cases:
  assumes "merge_artboard_group fs mse sketch_folders = (cs, r)"
  obtains e where "size_groups_of fs sketch_folders = Inl e" "cs = []" "r = Inl e"
  | sg where "size_groups_of fs sketch_folders = Inr sg" "merge_buckets fs mse sg [] = (cs, r)"
  using assms by (auto simp: merge_artboard_group_def split: sum.splits)

lemma distinct_concat_disjoint:
  assumes "distinct (concat xs)" "i < length xs" "j < length xs" "i \<noteq> j"
  shows "set (xs ! i) \<inter> set (xs ! j) = {}"
proof -
  have aux: "set (xs ! i) \<inter> set (xs ! j) = {}" if "i < j" "j < length xs" "distinct (concat xs)" for i j
  proof -
    from that have i: "i < length xs" by simp
    have "xs = take i xs @ xs ! i # drop (Suc i) xs"
      using i by (simp add: id_take_nth_drop)
    then have "concat xs = concat (take i xs) @ xs ! i @ concat (drop (Suc i) xs)"
      by (metis concat.simps(2) concat_append)
    with that(3) have "set (xs ! i) \<inter> set (concat (drop (Suc i) xs)) = {}"
      by (metis distinct_append)
    moreover have "xs ! j \<in> set (drop (Suc i) xs)"
    proof -
      have "j - Suc i < length (drop (Suc i) xs)" using that(1,2) by simp
      then have "drop (Suc i) xs ! (j - Suc i) \<in> set (drop (Suc i) xs)" by (rule nth_mem)
      moreover have "drop (Suc i) xs ! (j - Suc i) = xs ! j" using that(1,2) by simp
      ultimately show ?thesis by simp
    qed
    ultimately show ?thesis by auto
  qed
  from assms(4) consider "i < j" | "j < i" by arith
  then show ?thesis
  proof cases
    case 1
    then show ?thesis using aux assms by blast
  next
    case 2
    then have "set (xs ! j) \<inter> set (xs ! i) = {}" using aux assms by blast
    then show ?thesis by blast
  qed
qed

lemma merge_artboard_group_result:
  assumes "merge_artboard_group fs mse sketch_folders = (cs, Inr groups)"
  obtains sg where "size_groups_of fs sketch_folders = Inr sg"
    and "mset (concat groups) = mset (concat sketch_folders)"
    and "\<forall>g\<in>set groups. represented fs mse g"
    and "\<forall>g\<in>set groups. \<exists>b\<in>set sg. set g \<subseteq> set (snd b)"
    and "snd ` set cs \<subseteq> hd ` set groups"
    and "keyed fs sg"
proof -
  from assms obtain sg where sg: "size_groups_of fs sketch_folders = Inr sg"
    and mb: "merge_buckets fs mse sg [] = (cs, Inr groups)"
    by (auto elim: merge_artboard_group_cases)
  have "\<forall>g\<in>set []. represented fs mse g" by simp
  note mr = merge_buckets_result [OF mb this]
  note sr = size_groups_of_result [OF sg]
  show thesis
  proof (rule that [OF sg])
    show "mset (concat groups) = mset (concat sketch_folders)" using mr sr by simp
    show "\<forall>g\<in>set groups. represented fs mse g" using mr by simp
    show "\<forall>g\<in>set groups. \<exists>b\<in>set sg. set g \<subseteq> set (snd b)" using mr by simp
    show "snd ` set cs \<subseteq> hd ` set groups" using mr by simp
    show "keyed fs sg" using sr by simp
  qed
qed

lemma merge_fs_abc:
  "merge_artboard_group fs_abc mse_mean [[''A'', ''B'', ''C'']]
     = ([(''B'', ''A''), (''C'', ''A'')], Inr [[''A'', ''B''], [''C'']])"
  by (simp add: merge_artboard_group_def size_groups_of_def fs_abc_def get_image_def py_index_0
        compare_image_solid shape_solid)

lemma merge_fs_chain:
  "merge_artboard_group fs_chain mse_mean [[''A'', ''B'', ''C'']]
     = ([(''B'', ''A''), (''C'', ''A'')], Inr [[''A'', ''B'', ''C'']])"
  by (simp add: merge_artboard_group_def size_groups_of_def fs_chain_def get_image_def py_index_0
        compare_image_solid shape_solid)

lemma merge_fs_strip:
  "merge_artboard_group fs_strip mse_mean [[''A'', ''B''], [''C'']]
     = ([(''B'', ''A''), (''C'', ''A'')], Inr [[''A'', ''B'', ''C'']])"
  by (simp add: merge_artboard_group_def size_groups_of_def fs_strip_def get_image_def py_index_0
        compare_image_solid shape_solid)

lemma chain_not_mutual: "compare_paths fs_chain mse_mean ''B'' ''C'' = Inr False"
  "compare_paths fs_chain mse_mean ''C'' ''B'' = Inr False"
  by (simp_all add: compare_paths_def fs_chain_def get_image_def compare_image_solid)

subsection \<open>The materializer\<close>

lemma open_all_result:
  "open_all fs xs = Inr imgs \<Longrightarrow> length imgs = length xs \<and> (\<forall>i<length xs. fs (xs ! i) = Some (imgs ! i))"
proof (induction xs arbitrary: imgs)
  case Nil
  then show ?case by simp
next
  case (Cons x xs)
  then show ?case
    by (auto simp: get_image_def bind_err_def nth_Cons split: option.splits sum.splits nat.splits)
qed

lemma open_all_defined:
  "\<forall>x\<in>set xs. \<exists>a. fs x = Some a \<Longrightarrow> \<exists>imgs. open_all fs xs = Inr imgs"
  by (induction xs) (auto simp: get_image_def)

lemma take2_nth: "take 2 xs = [h, w] \<Longrightarrow> xs ! 0 = h \<and> xs ! 1 = w"
  by (cases xs; cases "tl xs") (auto simp: numeral_2_eq_2)

lemma dims_pil_size: "dims fs p = Some (h, w) \<Longrightarrow> fs p = Some a \<Longrightarrow> pil_size a = (w, h)"
  by (auto simp: dims_def pil_size_def split: list.splits dest!: take2_nth)

lemma sum_list_take_const:
  "\<forall>x\<in>set xs. f x = (c::nat) \<Longrightarrow> i \<le> length xs \<Longrightarrow> sum_list (map f (take i xs)) = i * c"
proof (induction xs arbitrary: i)
  case Nil
  then show ?case by simp
next
  case (Cons x xs)
  then show ?case by (cases i) auto
qed

subsection \<open>The error log\<close>

lemma fold_insert_image: "fold (\<lambda>line acc. insert (f line) acc) ls S = S \<union> f ` set ls"
  by (induction ls arbitrary: S) auto

lemma drain_eq:
  "drain queue S = S \<union> (\<Union>stderr\<in>set queue. (\<lambda>line. line @ [newline]) ` set (split_nl (strip stderr)))"
  by (induction queue arbitrary: S) (auto simp: fold_insert_image)

lemma process_eq:
  "process results =
     (\<Union>stderr\<in>{d \<in> set results. d \<noteq> []}. (\<lambda>line. line @ [newline]) ` set (split_nl (strip stderr)))"
  by (simp add: process_def error_queue_def drain_eq)

lemma split_nl_nonempty: "split_nl s \<noteq> []"
  by (induction s) (auto split: list.splits)

lemma split_nl_no_newline: "l \<in> set (split_nl s) \<Longrightarrow> newline \<notin> set l"
  by (induction s arbitrary: l) (auto split: list.splits if_splits)

lemma split_nl_snoc: "split_nl (s @ [newline]) = split_nl s @ [[]]"
  by (induction s) (auto split: list.splits simp: split_nl_nonempty)

lemma split_nl_single: "split_nl s = [l] \<Longrightarrow> newline \<notin> set s"
  by (induction s arbitrary: l) (auto split: list.splits if_splits simp: split_nl_nonempty)

lemma last_split_nl: "(last (split_nl s) = []) = (s = [] \<or> last s = newline)"
proof (induction s)
  case Nil
  show ?case by simp
next
  case (Cons c s)
  show ?case
  proof (cases "c = newline")
    case True
    with Cons show ?thesis by (simp add: split_nl_nonempty)
  next
    case False
    obtain l ls where sp: "split_nl s = l # ls"
      using split_nl_nonempty [of s] by (cases "split_nl s") auto
    show ?thesis
    proof (cases ls)
      case Nil
      with sp have "newline \<notin> set s" by (auto dest: split_nl_single)
      then have "s \<noteq> [] \<Longrightarrow> last s \<noteq> newline" by (metis last_in_set)
      with False sp Nil show ?thesis by auto
    next
      case (Cons l' ls')
      with sp have "s \<noteq> []" by auto
      with False sp Cons Cons.IH show ?thesis by simp
    qed
  qed
qed

lemma strip_clean:
  assumes "s \<noteq> []" "\<not> py_isspace (hd s)" "\<not> py_isspace (last s)"
  shows "strip s = s"
proof -
  have "dropWhile py_isspace s = s"
    using assms by (simp add: dropWhile_eq_self_iff)
  moreover have "dropWhile py_isspace (rev s) = rev s"
    using assms by (simp add: dropWhile_eq_self_iff hd_rev)
  ultimately show ?thesis by (simp add: strip_def)
qed

lemma py_isspace_newline: "py_isspace newline"
  by (simp add: py_isspace_def newline_def)

lemma strip_clean_newline:
  assumes "s \<noteq> []" "\<not> py_isspace (hd s)" "\<not> py_isspace (last s)"
  shows "strip (s @ [newline]) = s"
proof -
  have "dropWhile py_isspace (s @ [newline]) = s @ [newline]"
    using assms by (simp add: dropWhile_eq_self_iff)
  moreover have "dropWhile py_isspace (rev s) = rev s"
    using assms by (simp add: dropWhile_eq_self_iff hd_rev)
  ultimately show ?thesis by (simp add: strip_def py_isspace_newline)
qed

lemma clean_lines:
  assumes "s \<noteq> []" "\<not> py_isspace (hd s)" "\<not> py_isspace (last s)"
  shows "split_nl (strip s) = diagnostic_lines_spec s"
    and "split_nl (strip (s @ [newline])) = diagnostic_lines_spec (s @ [newline])"
proof -
  have "last s \<noteq> newline" using assms(3) py_isspace_newline by auto
  then have "last (split_nl s) \<noteq> []" using assms(1) by (simp add: last_split_nl)
  then show "split_nl (strip s) = diagnostic_lines_spec s"
    by (simp add: strip_clean [OF assms] diagnostic_lines_spec_def)
  show "split_nl (strip (s @ [newline])) = diagnostic_lines_spec (s @ [newline])"
    by (simp add: strip_clean_newline [OF assms] diagnostic_lines_spec_def split_nl_snoc)
qed

lemma error_log_spec_eq:
  "error_log_spec results =
     (\<Union>d\<in>{d \<in> set results. d \<noteq> []}. (\<lambda>line. line @ [newline]) ` set (diagnostic_lines_spec d))"
  by (auto simp: error_log_spec_def)

subsection \<open>The font pattern\<close>

lemma collect_fonts_eq:
  "collect_fonts lines S = S \<union> {name. \<exists>line\<in>set lines. re_match_font line = Some name}"
  by (induction lines arbitrary: S) (auto split: option.splits)

lemma collect_fonts_finite: "finite S \<Longrightarrow> finite (collect_fonts lines S)"
  by (induction lines arbitrary: S) (auto split: option.splits)

lemma takeWhile_stop: "\<forall>x\<in>set xs. P x \<Longrightarrow> \<not> P y \<Longrightarrow> takeWhile P (xs @ y # ys) = xs"
  by (induction xs) auto

lemma dropWhile_stop: "\<forall>x\<in>set xs. P x \<Longrightarrow> \<not> P y \<Longrightarrow> dropWhile P (xs @ y # ys) = y # ys"
  by (induction xs) auto

lemma takeWhile_pass: "\<forall>x\<in>set xs. P x \<Longrightarrow> takeWhile P (xs @ ys) = xs @ takeWhile P ys"
  by (induction xs) auto

lemma match_tail_sound:
  assumes "match_tail s = Some name"
  shows "\<exists>rest. s = pattern_literal @ name @ [dquote] @ rest
           \<and> name \<noteq> [] \<and> dquote \<notin> set name \<and> newline \<notin> set name"
proof -
  let ?P = "\<lambda>c. c \<noteq> dquote \<and> c \<noteq> newline"
  let ?r = "drop (length pattern_literal) s"
  from assms have pre: "take (length pattern_literal) s = pattern_literal"
    and name: "name = takeWhile ?P ?r" and ne: "name \<noteq> []"
    and after: "take 1 (dropWhile ?P ?r) = [dquote]"
    by (auto simp: match_tail_def Let_def split: if_splits)
  from after obtain rest where rest: "dropWhile ?P ?r = dquote # rest"
    by (cases "dropWhile ?P ?r") auto
  have "s = take (length pattern_literal) s @ ?r" by simp
  also have "?r = takeWhile ?P ?r @ dropWhile ?P ?r" by simp
  finally have "s = pattern_literal @ name @ [dquote] @ rest"
    using pre name rest by simp
  moreover have "dquote \<notin> set name" "newline \<notin> set name"
    unfolding name by (auto dest: set_takeWhileD)
  ultimately show ?thesis using ne by blast
qed

lemma match_tail_complete:
  assumes "name \<noteq> []" "dquote \<notin> set name" "newline \<notin> set name"
  shows "match_tail (pattern_literal @ name @ [dquote] @ rest) = Some name"
proof -
  let ?P = "\<lambda>c. c \<noteq> dquote \<and> c \<noteq> newline"
  have "takeWhile ?P (name @ dquote # rest) = name"
    using assms by (intro takeWhile_stop) auto
  moreover have "dropWhile ?P (name @ dquote # rest) = dquote # rest"
    using assms by (intro dropWhile_stop) auto
  ultimately show ?thesis using assms(1)
    by (simp add: match_tail_def Let_def)
qed

lemma try_from_sound:
  "try_from k line = Some name \<Longrightarrow>
   \<exists>i. 1 \<le> i \<and> i \<le> k \<and> match_tail (drop i line) = Some name
      \<and> (\<forall>j. i < j \<and> j \<le> k \<longrightarrow> match_tail (drop j line) = None)"
proof (induction k)
  case 0
  then show ?case by simp
next
  case (Suc k)
  show ?case
  proof (cases "match_tail (drop (Suc k) line)")
    case None
    with Suc.prems have "try_from k line = Some name" by simp
    from Suc.IH [OF this] obtain i where i: "1 \<le> i" "i \<le> k" "match_tail (drop i line) = Some name"
      "\<forall>j. i < j \<and> j \<le> k \<longrightarrow> match_tail (drop j line) = None" by blast
    have "\<forall>j. i < j \<and> j \<le> Suc k \<longrightarrow> match_tail (drop j line) = None"
      using i(4) None by (auto simp: le_Suc_eq)
    with i show ?thesis by (intro exI [of _ i]) simp
  next
    case (Some n)
    with Suc.prems have "n = name" by simp
    with Some show ?thesis by (intro exI [of _ "Suc k"]) auto
  qed
qed

lemma try_from_complete:
  "1 \<le> i \<Longrightarrow> i \<le> k \<Longrightarrow> match_tail (drop i line) = Some name \<Longrightarrow> \<exists>name'. try_from k line = Some name'"
proof (induction k)
  case 0
  then show ?case by simp
next
  case (Suc k)
  show ?case
  proof (cases "match_tail (drop (Suc k) line)")
    case None
    with Suc.prems have "i \<le> k" by (cases "i = Suc k") auto
    from Suc.IH [OF Suc.prems(1) this Suc.prems(3)] None show ?thesis by simp
  next
    case (Some n)
    then show ?thesis by simp
  qed
qed

lemma re_match_font_sound:
  assumes "re_match_font line = Some name"
  shows "\<exists>pre rest. line = pre @ pattern_literal @ name @ [dquote] @ rest
           \<and> pre \<noteq> [] \<and> newline \<notin> set pre
           \<and> name \<noteq> [] \<and> dquote \<notin> set name \<and> newline \<notin> set name"
proof -
  let ?n = "length (takeWhile (\<lambda>c. c \<noteq> newline) line)"
  from assms obtain i where i: "1 \<le> i" "i \<le> ?n" "match_tail (drop i line) = Some name"
    using try_from_sound [of ?n line name] by (auto simp: re_match_font_def)
  from match_tail_sound [OF i(3)] obtain rest where rest:
    "drop i line = pattern_literal @ name @ [dquote] @ rest"
    "name \<noteq> []" "dquote \<notin> set name" "newline \<notin> set name" by blast
  have "take i line = take i (takeWhile (\<lambda>c. c \<noteq> newline) line)"
    using i(2) by (metis append_eq_conv_conj takeWhile_dropWhile_id take_append take_all_iff diff_is_0_eq take_0 append.right_neutral)
  then have "newline \<notin> set (take i line)"
    by (metis in_set_takeD set_takeWhileD)
  moreover have "take i line \<noteq> []"
    using i by (cases line) auto
  moreover have "line = take i line @ pattern_literal @ name @ [dquote] @ rest"
    using rest(1) by (metis append_take_drop_id)
  ultimately show ?thesis using rest by blast
qed

lemma re_match_font_complete:
  assumes "pre \<noteq> []" "newline \<notin> set pre" "name \<noteq> []" "dquote \<notin> set name" "newline \<notin> set name"
  shows "\<exists>name'. re_match_font (pre @ pattern_literal @ name @ [dquote] @ rest) = Some name'"
proof -
  let ?line = "pre @ pattern_literal @ name @ [dquote] @ rest"
  have "takeWhile (\<lambda>c. c \<noteq> newline) ?line
      = pre @ takeWhile (\<lambda>c. c \<noteq> newline) (pattern_literal @ name @ [dquote] @ rest)"
    using assms(2) by (intro takeWhile_pass) auto
  then have le: "length pre \<le> length (takeWhile (\<lambda>c. c \<noteq> newline) ?line)"
    by simp
  have one: "1 \<le> length pre" using assms(1) by (cases pre) auto
  have mt: "match_tail (drop (length pre) ?line) = Some name"
    using match_tail_complete [OF assms(3-5)] by simp
  show ?thesis
    unfolding re_match_font_def by (rule try_from_complete [OF one le mt])
qed

lemma re_match_bare: "re_match_font (font_note ''Helvetica Neue'' @ [newline]) = None"
  "re_match_font (font_note ''Arial'' @ [newline]) = None"
  by (simp_all add: re_match_font_def font_note_def pattern_literal_def match_tail_def
        newline_def dquote_def)

section \<open>The properties\<close>

text \<open>
  C1. On a bucket whose images the comparator can compare, the clustering loop does
  what the greedy step says, path after path in input order: the path is compared
  with the first members of the open groups in creation order, up to and including the
  first one it matches; it is appended to that group, or, when it matches none, it
  starts a new group of its own at the end. The comparator calls and the groups are
  those of \<open>greedy_run\<close>. In particular, for images A, B, C of one size, listed in this
  order, where B matches A and C does not match A, the engine compares B with A and C
  with A and returns the groups [A, B] and [C]; B and C are never compared.
\<close>

theorem greedy_first_match:
  "(comparable fs mse ps \<longrightarrow>
      cluster_bucket fs mse ps [] =
        (fst (greedy_run (similar fs mse) ps []), Inr (snd (greedy_run (similar fs mse) ps []))))
 \<and> (concat sketch_folders = [A, B, C] \<and> dims fs A = Some k \<and> dims fs B = Some k \<and> dims fs C = Some k
      \<and> similar fs mse B A \<and> compare_paths fs mse C A = Inr False \<longrightarrow>
      merge_artboard_group fs mse sketch_folders = ([(B, A), (C, A)], Inr [[A, B], [C]]))"
proof (intro conjI impI)
  assume "comparable fs mse ps"
  then have "\<forall>p\<in>set (concat []) \<union> set ps. \<forall>q\<in>set (concat []) \<union> set ps.
             compare_paths fs mse p q = Inr True \<or> compare_paths fs mse p q = Inr False"
    by (simp add: comparable_iff)
  moreover have "\<forall>g\<in>set ([] :: path list list). g \<noteq> []" by simp
  ultimately show "cluster_bucket fs mse ps [] =
        (fst (greedy_run (similar fs mse) ps []), Inr (snd (greedy_run (similar fs mse) ps [])))"
    by (rule cluster_bucket_greedy)
next
  assume h: "concat sketch_folders = [A, B, C] \<and> dims fs A = Some k \<and> dims fs B = Some k \<and> dims fs C = Some k
      \<and> similar fs mse B A \<and> compare_paths fs mse C A = Inr False"
  obtain w ht where k: "k = (w, ht)" by (cases k)
  from h obtain b a where ba: "fs B = Some b" "fs A = Some a" "compare_image mse b a = Inr True"
    by (auto simp: similar_def elim: compare_paths_Inr)
  from h obtain c where c: "fs C = Some c" "compare_image mse c a = Inr False"
    using ba(2) by (auto elim!: compare_paths_Inr)
  from h k ba c have t: "take 2 (shape a) = [w, ht]" "take 2 (shape b) = [w, ht]" "take 2 (shape c) = [w, ht]"
    by (auto simp: dims_def split: list.splits)
  have sg: "size_groups_of fs sketch_folders = Inr [((w, ht), [A, B, C])]"
    using h by (simp add: size_groups_of_def get_image_def ba c t)
  show "merge_artboard_group fs mse sketch_folders = ([(B, A), (C, A)], Inr [[A, B], [C]])"
    by (simp add: merge_artboard_group_def sg get_image_def ba c py_index_0)
qed

theorem greedy_first_match_witness:
  "comparable fs_abc mse_mean [''A'', ''B'', ''C'']
   \<and> greedy_run (similar fs_abc mse_mean) [''A'', ''B'', ''C''] []
       = ([(''B'', ''A''), (''C'', ''A'')], [[''A'', ''B''], [''C'']])
   \<and> cluster_bucket fs_abc mse_mean [''A'', ''B'', ''C''] []
       = ([(''B'', ''A''), (''C'', ''A'')], Inr [[''A'', ''B''], [''C'']])
   \<and> dims fs_abc ''A'' = Some (100, 100) \<and> dims fs_abc ''B'' = Some (100, 100)
   \<and> dims fs_abc ''C'' = Some (100, 100)
   \<and> similar fs_abc mse_mean ''B'' ''A'' \<and> compare_paths fs_abc mse_mean ''C'' ''A'' = Inr False
   \<and> compare_paths fs_abc mse_mean ''C'' ''B'' = Inr False
   \<and> merge_artboard_group fs_abc mse_mean [[''A''], [''B'', ''C'']]
       = ([(''B'', ''A''), (''C'', ''A'')], Inr [[''A'', ''B''], [''C'']])"
proof -
  have cmp: "compare_paths fs_abc mse_mean ''A'' ''A'' = Inr True"
    "compare_paths fs_abc mse_mean ''A'' ''B'' = Inr True"
    "compare_paths fs_abc mse_mean ''A'' ''C'' = Inr False"
    "compare_paths fs_abc mse_mean ''B'' ''A'' = Inr True"
    "compare_paths fs_abc mse_mean ''B'' ''B'' = Inr True"
    "compare_paths fs_abc mse_mean ''B'' ''C'' = Inr False"
    "compare_paths fs_abc mse_mean ''C'' ''A'' = Inr False"
    "compare_paths fs_abc mse_mean ''C'' ''B'' = Inr False"
    "compare_paths fs_abc mse_mean ''C'' ''C'' = Inr True"
    by (simp_all add: compare_paths_def fs_abc_def get_image_def compare_image_solid)
  have comp: "comparable fs_abc mse_mean [''A'', ''B'', ''C'']"
    by (simp add: comparable_def cmp)
  have run: "greedy_run (similar fs_abc mse_mean) [''A'', ''B'', ''C''] []
       = ([(''B'', ''A''), (''C'', ''A'')], [[''A'', ''B''], [''C'']])"
    by (simp add: greedy_place_Nil greedy_place_Cons greedy_compared_Nil greedy_compared_Cons
          similar_def cmp)
  have d: "dims fs_abc ''A'' = Some (100, 100)" "dims fs_abc ''B'' = Some (100, 100)"
    "dims fs_abc ''C'' = Some (100, 100)"
    by (simp_all add: dims_def fs_abc_def shape_solid)
  have c: "concat [[''A''], [''B'', ''C'']] = [''A'', ''B'', ''C'']" by simp
  from greedy_first_match [of fs_abc mse_mean "[''A'', ''B'', ''C'']" "[[''A''], [''B'', ''C'']]"
      "''A''" "''B''" "''C''" "(100, 100)"]
    comp run d cmp c
  show ?thesis by (simp add: similar_def)
qed

text \<open>
  C2. For two images with the three axes height, width and channels, the comparator
  returns true exactly when the metric, applied to the common top-left region of the
  two images (the first min(heights) rows, min(widths) columns and min(channel counts)
  channels of each), returns an error strictly below 500; it returns false exactly when
  the metric returns an error of 500 or more, and raises exactly when the metric does.
  In particular, for two 100 x 100 images, an error of 10 gives true and an error of
  900 gives false.
\<close>

theorem compare_image_threshold:
  assumes "length (shape image1) = 3" and "length (shape image2) = 3"
  shows "shape (common_region image1 image2 image1) =
           [min (shape image1 ! 0) (shape image2 ! 0), min (shape image1 ! 1) (shape image2 ! 1),
            min (shape image1 ! 2) (shape image2 ! 2)]
       \<and> shape (common_region image1 image2 image2) = shape (common_region image1 image2 image1)
       \<and> (compare_image mse image1 image2 = Inr True) =
           (\<exists>res. mse (common_region image1 image2 image1) (common_region image1 image2 image2) = Inr res
                  \<and> res < 500)
       \<and> (compare_image mse image1 image2 = Inr False) =
           (\<exists>res. mse (common_region image1 image2 image1) (common_region image1 image2 image2) = Inr res
                  \<and> 500 \<le> res)
       \<and> (\<forall>e. (compare_image mse image1 image2 = Inl e) =
           (mse (common_region image1 image2 image1) (common_region image1 image2 image2) = Inl e))
       \<and> (take 2 (shape image1) = [100, 100] \<and> take 2 (shape image2) = [100, 100] \<longrightarrow>
            take 2 (shape (common_region image1 image2 image1)) = [100, 100]
          \<and> (mse (common_region image1 image2 image1) (common_region image1 image2 image2) = Inr 10
               \<longrightarrow> compare_image mse image1 image2 = Inr True)
          \<and> (mse (common_region image1 image2 image1) (common_region image1 image2 image2) = Inr 900
               \<longrightarrow> compare_image mse image1 image2 = Inr False))"
proof -
  let ?m = "mse (common_region image1 image2 image1) (common_region image1 image2 image2)"
  have cmp: "compare_image mse image1 image2 = bind_err ?m (\<lambda>res. Inr (res < 500))"
    using assms by (rule compare_image_three)
  obtain a0 a1 a2 where a: "shape image1 = [a0, a1, a2]"
    using assms(1) by (auto simp: length_Suc_conv numeral_3_eq_3)
  obtain b0 b1 b2 where b: "shape image2 = [b0, b1, b2]"
    using assms(2) by (auto simp: length_Suc_conv numeral_3_eq_3)
  have "shape (common_region image1 image2 image1) =
           [min (shape image1 ! 0) (shape image2 ! 0), min (shape image1 ! 1) (shape image2 ! 1),
            min (shape image1 ! 2) (shape image2 ! 2)]"
    by (simp add: common_region_def Let_def)
  moreover have "shape (common_region image1 image2 image2) = shape (common_region image1 image2 image1)"
    by (simp add: common_region_def Let_def)
  moreover have "(compare_image mse image1 image2 = Inr True) = (\<exists>res. ?m = Inr res \<and> res < 500)"
    unfolding cmp by (cases ?m) simp_all
  moreover have "(compare_image mse image1 image2 = Inr False) = (\<exists>res. ?m = Inr res \<and> 500 \<le> res)"
    unfolding cmp by (cases ?m) (simp_all add: not_less)
  moreover have "\<forall>e. (compare_image mse image1 image2 = Inl e) = (?m = Inl e)"
    unfolding cmp by (cases ?m) simp_all
  moreover have "take 2 (shape image1) = [100, 100] \<and> take 2 (shape image2) = [100, 100] \<longrightarrow>
            take 2 (shape (common_region image1 image2 image1)) = [100, 100]
          \<and> (?m = Inr 10 \<longrightarrow> compare_image mse image1 image2 = Inr True)
          \<and> (?m = Inr 900 \<longrightarrow> compare_image mse image1 image2 = Inr False)"
    unfolding cmp by (simp add: common_region_def Let_def a b)
  ultimately show ?thesis by blast
qed

theorem compare_image_threshold_witness:
  "length (shape (flat100 0 0)) = 3 \<and> length (shape (flat100 2 4)) = 3
   \<and> take 2 (shape (flat100 0 0)) = [100, 100] \<and> take 2 (shape (flat100 2 4)) = [100, 100]
   \<and> mse_mean (common_region (flat100 2 4) (flat100 0 0) (flat100 2 4))
               (common_region (flat100 2 4) (flat100 0 0) (flat100 0 0)) = Inr 10
   \<and> compare_image mse_mean (flat100 2 4) (flat100 0 0) = Inr True
   \<and> mse_mean (common_region (flat100 30 30) (flat100 0 0) (flat100 30 30))
               (common_region (flat100 30 30) (flat100 0 0) (flat100 0 0)) = Inr 900
   \<and> compare_image mse_mean (flat100 30 30) (flat100 0 0) = Inr False"
proof -
  have s: "length (shape (flat100 u v)) = 3" "take 2 (shape (flat100 u v)) = [100, 100]" for u v
    by (simp_all add: flat100_def)
  have m1: "mse_mean (common_region (flat100 2 4) (flat100 0 0) (flat100 2 4))
               (common_region (flat100 2 4) (flat100 0 0) (flat100 0 0)) = Inr 10"
    by (simp add: mse_flat100_any)
  have m2: "mse_mean (common_region (flat100 30 30) (flat100 0 0) (flat100 30 30))
               (common_region (flat100 30 30) (flat100 0 0) (flat100 0 0)) = Inr 900"
    by (simp add: mse_flat100_any)
  from compare_image_threshold [OF s(1) s(1), of 2 4 0 0 mse_mean]
       compare_image_threshold [OF s(1) s(1), of 30 30 0 0 mse_mean] s m1 m2
  show ?thesis by simp
qed

text \<open>
  C3. Two images whose dimensions differ are never in the same size bucket, and the
  comparator is never called on the pair, also in a run that ends in an exception. The
  buckets have distinct keys, every path of a bucket has the dimensions of its key,
  every listed image is in exactly one bucket, and the buckets together hold the listed
  paths, each as often as it is listed.
\<close>

theorem size_buckets_exact:
  assumes "merge_artboard_group fs mse sketch_folders = (cs, r)"
  shows "(\<forall>p q. dims fs p \<noteq> dims fs q \<longrightarrow> (p, q) \<notin> set cs)
       \<and> (\<forall>size_groups. size_groups_of fs sketch_folders = Inr size_groups \<longrightarrow>
            distinct (map fst size_groups)
          \<and> mset (concat (map snd size_groups)) = mset (concat sketch_folders)
          \<and> (\<forall>b\<in>set size_groups. \<forall>p\<in>set (snd b). dims fs p = Some (fst b))
          \<and> (\<forall>p\<in>set (concat sketch_folders). \<exists>!b. b \<in> set size_groups \<and> p \<in> set (snd b))
          \<and> (\<forall>p q. dims fs p \<noteq> dims fs q \<longrightarrow>
                \<not> (\<exists>b\<in>set size_groups. p \<in> set (snd b) \<and> q \<in> set (snd b))))"
proof (intro conjI allI impI)
  fix p q assume ne: "dims fs p \<noteq> dims fs q"
  show "(p, q) \<notin> set cs"
  proof
    assume in_cs: "(p, q) \<in> set cs"
    from assms show False
    proof (cases rule: merge_artboard_group_cases)
      case (1 e)
      with in_cs show False by simp
    next
      case (2 sg)
      from merge_buckets_calls [OF 2(2) in_cs] obtain b
        where b: "b \<in> set sg" "p \<in> set (snd b)" "q \<in> set (snd b)" by blast
      from size_groups_of_result [OF 2(1)] have "keyed fs sg" by simp
      with b have "dims fs p = Some (fst b)" "dims fs q = Some (fst b)"
        by (auto simp: keyed_def)
      with ne show False by simp
    qed
  qed
next
  fix sg assume sg: "size_groups_of fs sketch_folders = Inr sg"
  note res = size_groups_of_result [OF sg]
  from res show "distinct (map fst sg)" by simp
  from res show "mset (concat (map snd sg)) = mset (concat sketch_folders)" by simp
  from res have keyed: "keyed fs sg" by simp
  then show "\<forall>b\<in>set sg. \<forall>p\<in>set (snd b). dims fs p = Some (fst b)"
    by (simp add: keyed_def)
  show "\<forall>p\<in>set (concat sketch_folders). \<exists>!b. b \<in> set sg \<and> p \<in> set (snd b)"
  proof
    fix p assume "p \<in> set (concat sketch_folders)"
    then have "p \<in> set_mset (mset (concat (map snd sg)))"
      using res by simp
    then obtain b where b: "b \<in> set sg" "p \<in> set (snd b)" by auto
    show "\<exists>!b. b \<in> set sg \<and> p \<in> set (snd b)"
    proof (rule ex1I [of _ b])
      show "b \<in> set sg \<and> p \<in> set (snd b)" using b by simp
    next
      fix b' assume b': "b' \<in> set sg \<and> p \<in> set (snd b')"
      from keyed b have "dims fs p = Some (fst b)"
        unfolding keyed_def by blast
      moreover from keyed b' have "dims fs p = Some (fst b')"
        unfolding keyed_def by blast
      ultimately have "fst b' = fst b" by simp
      with res b b' show "b' = b"
        by (metis distinct_map inj_on_eq_iff)
    qed
  qed
  fix p q assume ne: "dims fs p \<noteq> dims fs q"
  show "\<not> (\<exists>b\<in>set sg. p \<in> set (snd b) \<and> q \<in> set (snd b))"
    using keyed ne by (auto simp: keyed_def)
qed

theorem size_buckets_exact_witness:
  "merge_artboard_group fs_sizes mse_mean [[''A'', ''B''], [''C'']]
     = ([(''B'', ''A'')], Inr [[''A'', ''B''], [''C'']])
   \<and> size_groups_of fs_sizes [[''A'', ''B''], [''C'']]
     = Inr [((100, 100), [''A'', ''B'']), ((200, 200), [''C''])]
   \<and> dims fs_sizes ''A'' = Some (100, 100) \<and> dims fs_sizes ''B'' = Some (100, 100)
   \<and> dims fs_sizes ''C'' = Some (200, 200)
   \<and> (''C'', ''A'') \<notin> set (fst (merge_artboard_group fs_sizes mse_mean [[''A'', ''B''], [''C'']]))
   \<and> (''C'', ''B'') \<notin> set (fst (merge_artboard_group fs_sizes mse_mean [[''A'', ''B''], [''C'']]))"
proof -
  have d: "dims fs_sizes ''A'' = Some (100, 100)" "dims fs_sizes ''B'' = Some (100, 100)"
    "dims fs_sizes ''C'' = Some (200, 200)"
    by (simp_all add: dims_def fs_sizes_def shape_solid)
  have sg: "size_groups_of fs_sizes [[''A'', ''B''], [''C'']]
     = Inr [((100, 100), [''A'', ''B'']), ((200, 200), [''C''])]"
    by (simp add: size_groups_of_def fs_sizes_def get_image_def shape_solid)
  from size_buckets_exact [OF merge_fs_sizes] d
  have "(''C'', ''A'') \<notin> set [(''B'', ''A'')]" "(''C'', ''B'') \<notin> set [(''B'', ''A'')]"
    by simp_all
  with d sg merge_fs_sizes show ?thesis by simp
qed

text \<open>
  C4. When the listed paths are distinct, no path occurs twice in the concatenation of
  the groups the engine returns: two different groups share no path, no group repeats a
  path, and the groups hold exactly the listed paths.
\<close>

theorem groups_disjoint:
  assumes "distinct (concat sketch_folders)"
    and "merge_artboard_group fs mse sketch_folders = (cs, Inr groups)"
  shows "distinct (concat groups)
       \<and> (\<forall>i<length groups. \<forall>j<length groups. i \<noteq> j \<longrightarrow> set (groups ! i) \<inter> set (groups ! j) = {})
       \<and> (\<forall>g\<in>set groups. distinct g)
       \<and> set (concat groups) = set (concat sketch_folders)"
proof -
  from assms(2) have m: "mset (concat groups) = mset (concat sketch_folders)"
    by (rule merge_artboard_group_result)
  then have d: "distinct (concat groups)"
    using assms(1) by (metis mset_eq_imp_distinct_iff)
  moreover have "\<forall>i<length groups. \<forall>j<length groups. i \<noteq> j \<longrightarrow> set (groups ! i) \<inter> set (groups ! j) = {}"
    using distinct_concat_disjoint [OF d] by blast
  moreover have "\<forall>g\<in>set groups. distinct g"
    using d by (simp add: distinct_concat_iff)
  moreover have "set (concat groups) = set (concat sketch_folders)"
    using m by (rule mset_eq_setD)
  ultimately show ?thesis by blast
qed

theorem groups_disjoint_witness:
  "distinct (concat [[''A'', ''B''], [''C'']])
   \<and> merge_artboard_group fs_sizes mse_mean [[''A'', ''B''], [''C'']]
     = ([(''B'', ''A'')], Inr [[''A'', ''B''], [''C'']])
   \<and> distinct (concat [[''A'', ''B''], [''C'']])
   \<and> set [''A'', ''B''] \<inter> set [''C''] = {}"
proof -
  have "distinct (concat [[''A'', ''B''], [''C'']])" by simp
  from groups_disjoint [OF this merge_fs_sizes] merge_fs_sizes
  show ?thesis by simp
qed

text \<open>
  C5. The manifest is the list of the engine's groups with more than one member, in
  the engine's order: each of its groups has at least two members, and the groups it
  leaves out are those of one member.
\<close>

theorem manifest_no_singletons:
  assumes "manifest fs mse sketch_folders = Inr m"
  shows "(\<forall>g\<in>set m. 2 \<le> length g)
       \<and> (\<exists>cs groups. merge_artboard_group fs mse sketch_folders = (cs, Inr groups)
            \<and> m = filter (\<lambda>g. 1 < length g) groups
            \<and> set groups - set m = {g \<in> set groups. length g = 1})"
proof -
  obtain cs r where mg: "merge_artboard_group fs mse sketch_folders = (cs, r)"
    by (cases "merge_artboard_group fs mse sketch_folders")
  with assms obtain groups where r: "r = Inr groups" and m: "m = filter (\<lambda>g. 1 < length g) groups"
    by (cases r) (auto simp: manifest_def)
  from mg r have "\<forall>g\<in>set groups. represented fs mse g"
    by (auto elim: merge_artboard_group_result)
  then have ne: "\<forall>g\<in>set groups. 0 < length g"
    by (simp add: represented_def)
  have "set groups - set m = {g \<in> set groups. length g = 1}"
  proof -
    have "g \<in> set groups \<Longrightarrow> (\<not> 1 < length g) = (length g = 1)" for g
      using ne by (cases g) auto
    then show ?thesis unfolding m by auto
  qed
  moreover have "\<forall>g\<in>set m. 2 \<le> length g" using m by auto
  ultimately show ?thesis using mg r m by blast
qed

theorem manifest_no_singletons_witness:
  "manifest fs_abc mse_mean [[''A'', ''B'', ''C'']] = Inr [[''A'', ''B'']]
   \<and> snd (merge_artboard_group fs_abc mse_mean [[''A'', ''B'', ''C'']]) = Inr [[''A'', ''B''], [''C'']]
   \<and> 2 \<le> length [''A'', ''B'']"
proof -
  have m: "manifest fs_abc mse_mean [[''A'', ''B'', ''C'']] = Inr [[''A'', ''B'']]"
    by (simp add: manifest_def merge_fs_abc)
  from manifest_no_singletons [OF m] m merge_fs_abc show ?thesis by simp
qed

text \<open>
  C6, as stated, fails: the pattern begins with \<^verbatim>\<open>.+\<close> and \<^verbatim>\<open>re.match\<close> matches from the
  start of the line, so a line that is the text \<^verbatim>\<open>Client requested name "<font>"\<close> alone,
  with nothing before it, does not match; the log of the scenario yields no font.
\<close>

theorem missing_font_counterexample:
  "get_missing_font bare_log = [] \<and> get_missing_font bare_log \<noteq> [''Arial'', ''Helvetica Neue'']"
  by (simp add: get_missing_font_def bare_log_def re_match_bare)

text \<open>
  C6, amended. The extraction returns, sorted and without duplicates, the names its
  pattern captures from the lines of the log. A captured name is not empty, holds no
  quote and no newline, and stands in its line between the text
  \<^verbatim>\<open>Client requested name "\<close> and a closing quote, after at least one character and no
  newline; every line of that form yields a name. In particular, a log in which every
  line has a prefix, with \<^verbatim>\<open>Client requested name "Helvetica Neue"\<close> on two lines and
  \<^verbatim>\<open>Client requested name "Arial"\<close> on one, yields the list Arial, Helvetica Neue.
\<close>

theorem missing_fonts_sorted_distinct:
  "sorted (get_missing_font lines) \<and> distinct (get_missing_font lines)
   \<and> set (get_missing_font lines) = {name. \<exists>line\<in>set lines. re_match_font line = Some name}
   \<and> (\<forall>line name. re_match_font line = Some name \<longrightarrow>
         (\<exists>pre rest. line = pre @ pattern_literal @ name @ [dquote] @ rest
            \<and> pre \<noteq> [] \<and> newline \<notin> set pre
            \<and> name \<noteq> [] \<and> dquote \<notin> set name \<and> newline \<notin> set name))
   \<and> (\<forall>pre name rest. pre \<noteq> [] \<and> newline \<notin> set pre
            \<and> name \<noteq> [] \<and> dquote \<notin> set name \<and> newline \<notin> set name \<longrightarrow>
         (\<exists>name'. re_match_font (pre @ pattern_literal @ name @ [dquote] @ rest) = Some name'))
   \<and> get_missing_font prefixed_log = [''Arial'', ''Helvetica Neue'']"
proof -
  have fin: "finite (collect_fonts lines {})"
    by (rule collect_fonts_finite) simp
  have one: "sorted (get_missing_font lines)" "distinct (get_missing_font lines)"
    by (simp_all add: get_missing_font_def)
  have two: "set (get_missing_font lines) = {name. \<exists>line\<in>set lines. re_match_font line = Some name}"
    using fin by (simp add: get_missing_font_def collect_fonts_eq)
  have three: "\<forall>line name. re_match_font line = Some name \<longrightarrow>
         (\<exists>pre rest. line = pre @ pattern_literal @ name @ [dquote] @ rest
            \<and> pre \<noteq> [] \<and> newline \<notin> set pre
            \<and> name \<noteq> [] \<and> dquote \<notin> set name \<and> newline \<notin> set name)"
    using re_match_font_sound by blast
  have four: "\<forall>pre name rest. pre \<noteq> [] \<and> newline \<notin> set pre
            \<and> name \<noteq> [] \<and> dquote \<notin> set name \<and> newline \<notin> set name \<longrightarrow>
         (\<exists>name'. re_match_font (pre @ pattern_literal @ name @ [dquote] @ rest) = Some name')"
    using re_match_font_complete by blast
  have "collect_fonts prefixed_log {} = {''Helvetica Neue'', ''Arial''}"
    by (simp add: prefixed_log_def bare_log_def re_match_font_def font_note_def
          pattern_literal_def match_tail_def newline_def dquote_def insert_commute)
  then have five: "get_missing_font prefixed_log = [''Arial'', ''Helvetica Neue'']"
    by (simp add: get_missing_font_def)
  from one two three four five show ?thesis by blast
qed

theorem missing_fonts_sorted_distinct_witness:
  "get_missing_font prefixed_log = [''Arial'', ''Helvetica Neue'']
   \<and> re_match_font (''CoreText note: '' @ pattern_literal @ ''Arial'' @ [dquote] @ [newline]) = Some ''Arial''
   \<and> ''CoreText note: '' \<noteq> [] \<and> newline \<notin> set ''CoreText note: ''
   \<and> dquote \<notin> set ''Arial'' \<and> newline \<notin> set ''Arial''
   \<and> sorted [''Arial'', ''Helvetica Neue''] \<and> distinct [''Arial'', ''Helvetica Neue'']"
proof -
  have m: "re_match_font (''CoreText note: '' @ pattern_literal @ ''Arial'' @ [dquote] @ [newline]) = Some ''Arial''"
    by (simp add: re_match_font_def pattern_literal_def match_tail_def newline_def dquote_def)
  from missing_fonts_sorted_distinct [of prefixed_log] m show ?thesis
    by (simp add: newline_def dquote_def)
qed

text \<open>
  C7, as stated, fails: the diagnostic consisting of a space and the letter a has the
  one line " a", and the log gets the line "a", because \<^verbatim>\<open>strip()\<close> removes the
  whitespace at both ends of a diagnostic before it is cut into lines.
\<close>

theorem error_log_counterexample:
  "process ['' a''] = {''a'' @ [newline]}
   \<and> error_log_spec ['' a''] = {'' a'' @ [newline]}
   \<and> process ['' a''] \<noteq> error_log_spec ['' a'']"
  by (simp add: process_def error_queue_def strip_def py_isspace_def newline_def
        error_log_spec_def diagnostic_lines_spec_def)

text \<open>
  C7, amended. Whatever the order in which the jobs finished, the lines written to the
  error log are, each once, the lines of every non-empty diagnostic after the
  whitespace at the two ends of the whole diagnostic has been stripped; every written
  line ends with its only newline. When every non-empty diagnostic begins and ends with
  a character that is not whitespace, a single final newline apart, these are exactly
  the lines of the diagnostics.
\<close>

theorem error_log_stripped_lines:
  assumes "written_lines (process results) file_lines"
  shows "distinct file_lines
       \<and> set file_lines =
           (\<Union>stderr\<in>{d \<in> set results. d \<noteq> []}.
              (\<lambda>line. line @ [newline]) ` set (split_nl (strip stderr)))
       \<and> (\<forall>l\<in>set file_lines. \<exists>line. l = line @ [newline] \<and> newline \<notin> set line)
       \<and> ((\<forall>d\<in>set results. d \<noteq> [] \<longrightarrow>
              (\<exists>s. s \<noteq> [] \<and> \<not> py_isspace (hd s) \<and> \<not> py_isspace (last s)
                   \<and> (d = s \<or> d = s @ [newline])))
            \<longrightarrow> set file_lines = error_log_spec results)"
proof -
  from assms have d: "distinct file_lines" and s: "set file_lines = process results"
    by (simp_all add: written_lines_def)
  have one: "set file_lines =
           (\<Union>stderr\<in>{d \<in> set results. d \<noteq> []}.
              (\<lambda>line. line @ [newline]) ` set (split_nl (strip stderr)))"
    using s by (simp only: process_eq)
  have two: "\<forall>l\<in>set file_lines. \<exists>line. l = line @ [newline] \<and> newline \<notin> set line"
    unfolding one by (auto dest: split_nl_no_newline)
  have three: "set file_lines = error_log_spec results"
    if clean: "\<forall>d\<in>set results. d \<noteq> [] \<longrightarrow>
              (\<exists>s. s \<noteq> [] \<and> \<not> py_isspace (hd s) \<and> \<not> py_isspace (last s)
                   \<and> (d = s \<or> d = s @ [newline]))"
  proof -
    have "split_nl (strip d) = diagnostic_lines_spec d" if "d \<in> set results" "d \<noteq> []" for d
      using clean that clean_lines by blast
    then show ?thesis
      unfolding one error_log_spec_eq by auto
  qed
  from d one two three show ?thesis by blast
qed

theorem error_log_stripped_lines_witness:
  "written_lines (process [''(a)'' @ [newline] @ ''(b)'' @ [newline], [], ''(b)'', '' (c) ''])
     [''(a)'' @ [newline], ''(b)'' @ [newline], ''(c)'' @ [newline]]
   \<and> written_lines (process [''(a)'' @ [newline] @ ''(b)'' @ [newline], [], ''(b)''])
     [''(b)'' @ [newline], ''(a)'' @ [newline]]
   \<and> error_log_spec [''(a)'' @ [newline] @ ''(b)'' @ [newline], [], ''(b)'']
       = {''(b)'' @ [newline], ''(a)'' @ [newline]}"
proof -
  have w1: "written_lines (process [''(a)'' @ [newline] @ ''(b)'' @ [newline], [], ''(b)'', '' (c) ''])
     [''(a)'' @ [newline], ''(b)'' @ [newline], ''(c)'' @ [newline]]"
    by (auto simp: written_lines_def process_def error_queue_def strip_def py_isspace_def newline_def)
  have w2: "written_lines (process [''(a)'' @ [newline] @ ''(b)'' @ [newline], [], ''(b)''])
     [''(b)'' @ [newline], ''(a)'' @ [newline]]"
    by (auto simp: written_lines_def process_def error_queue_def strip_def py_isspace_def newline_def)
  have sp: "error_log_spec [''(a)'' @ [newline] @ ''(b)'' @ [newline], [], ''(b)'']
       = {''(b)'' @ [newline], ''(a)'' @ [newline]}"
    by (auto simp: error_log_spec_def diagnostic_lines_spec_def newline_def)
  from error_log_stripped_lines [OF w1] error_log_stripped_lines [OF w2] w1 w2 sp
  show ?thesis by simp
qed

text \<open>
  C8. For every group of the manifest the materializer succeeds on the images the file
  system holds for the members of the group, member by member; the composite is as high
  as the image of the first member and as wide as that image times the number of
  members, and member \<open>i\<close> is pasted at height 0 and at the x-offset that is the sum of
  the widths of the images of the members before it. (The members of a group come from
  one bucket and have one width, so that \<^verbatim>\<open>i * image.size[0]\<close> is that sum.)
\<close>

theorem composite_layout:
  assumes "manifest fs mse sketch_folders = Inr m" and "g \<in> set m"
  shows "\<exists>comp imgs. open_all fs g = Inr imgs \<and> materialize_group fs g = Inr comp
       \<and> length imgs = length g \<and> 2 \<le> length g
       \<and> (\<forall>i<length g. fs (g ! i) = Some (imgs ! i))
       \<and> fs (hd g) = Some (hd imgs)
       \<and> snd (canvas_size comp) = snd (pil_size (hd imgs))
       \<and> fst (canvas_size comp) = fst (pil_size (hd imgs)) * length g
       \<and> length (pastes comp) = length g
       \<and> (\<forall>i<length g. pastes comp ! i =
            (sum_list (map (\<lambda>im. fst (pil_size im)) (take i imgs)), 0))"
proof -
  obtain cs r where mg: "merge_artboard_group fs mse sketch_folders = (cs, r)"
    by (cases "merge_artboard_group fs mse sketch_folders")
  with assms obtain groups where r: "r = Inr groups" and m: "m = filter (\<lambda>g. 1 < length g) groups"
    by (cases r) (auto simp: manifest_def)
  from assms(2) m have g: "g \<in> set groups" and len: "2 \<le> length g" by auto
  from mg r obtain sg where bucket: "\<forall>g\<in>set groups. \<exists>b\<in>set sg. set g \<subseteq> set (snd b)"
    and keyed: "keyed fs sg"
    by (auto elim: merge_artboard_group_result)
  from bucket g obtain b where b: "b \<in> set sg" "set g \<subseteq> set (snd b)" by blast
  obtain h w where hw: "fst b = (h, w)" by (cases "fst b")
  have dims: "\<forall>p\<in>set g. dims fs p = Some (h, w)"
    using keyed b hw by (auto simp: keyed_def)
  then have "\<forall>x\<in>set g. \<exists>a. fs x = Some a"
    by (auto simp: dims_def split: option.splits)
  then obtain imgs where imgs: "open_all fs g = Inr imgs"
    using open_all_defined by blast
  note oa = open_all_result [OF imgs]
  have sizes: "\<forall>im\<in>set imgs. pil_size im = (w, h)"
  proof
    fix im assume "im \<in> set imgs"
    then obtain i where i: "i < length imgs" "imgs ! i = im"
      by (auto simp: in_set_conv_nth)
    with oa have "fs (g ! i) = Some im" "g ! i \<in> set g" by auto
    with dims show "pil_size im = (w, h)" by (auto intro: dims_pil_size)
  qed
  from len oa obtain first rest where fr: "imgs = first # rest"
    by (cases imgs) auto
  define comp where "comp = \<lparr>canvas_size = (fst (pil_size first) * length imgs, snd (pil_size first)),
            pastes = map (\<lambda>(i, img). (i * fst (pil_size img), 0)) (enumerate 0 imgs)\<rparr>"
  have mat: "materialize_group fs g = Inr comp"
    by (simp add: materialize_group_def imgs fr py_index_0 comp_def)
  have "\<forall>i<length g. pastes comp ! i = (sum_list (map (\<lambda>im. fst (pil_size im)) (take i imgs)), 0)"
  proof (intro allI impI)
    fix i assume i: "i < length g"
    then have il: "i < length imgs" using oa by simp
    have "pastes comp ! i = (i * fst (pil_size (imgs ! i)), 0)"
      using il by (simp add: comp_def nth_enumerate_eq)
    also have "fst (pil_size (imgs ! i)) = w"
      using sizes il by simp
    also have "i * w = sum_list (map (\<lambda>im. fst (pil_size im)) (take i imgs))"
      using sum_list_take_const [of imgs "\<lambda>im. fst (pil_size im)" w i] sizes il by simp
    finally show "pastes comp ! i = (sum_list (map (\<lambda>im. fst (pil_size im)) (take i imgs)), 0)" .
  qed
  moreover have "snd (canvas_size comp) = snd (pil_size (hd imgs))"
    "fst (canvas_size comp) = fst (pil_size (hd imgs)) * length g"
    "length (pastes comp) = length g"
    using oa by (simp_all add: comp_def fr)
  moreover have "fs (hd g) = Some (hd imgs)"
  proof -
    have "0 < length g" using len by linarith
    with oa have "fs (g ! 0) = Some (imgs ! 0)" by blast
    moreover have "g \<noteq> []" using len by auto
    then have "g ! 0 = hd g" by (simp add: hd_conv_nth)
    moreover have "imgs ! 0 = hd imgs" using fr by simp
    ultimately show ?thesis by simp
  qed
  ultimately show ?thesis using imgs mat oa len by blast
qed

theorem composite_layout_witness:
  "manifest fs_strip mse_mean [[''A'', ''B''], [''C'']] = Inr [[''A'', ''B'', ''C'']]
   \<and> materialize_group fs_strip [''A'', ''B'', ''C'']
       = Inr \<lparr>canvas_size = (240, 50), pastes = [(0, 0), (80, 0), (160, 0)]\<rparr>
   \<and> fs_strip ''A'' = Some (solid 50 80 0) \<and> fs_strip ''B'' = Some (solid 50 80 3)
   \<and> fs_strip ''C'' = Some (solid 50 80 5)
   \<and> pil_size (solid 50 80 0) = (80, 50) \<and> pil_size (solid 50 80 3) = (80, 50)
   \<and> pil_size (solid 50 80 5) = (80, 50)"
proof -
  have m: "manifest fs_strip mse_mean [[''A'', ''B''], [''C'']] = Inr [[''A'', ''B'', ''C'']]"
    by (simp add: manifest_def merge_fs_strip)
  have g: "[''A'', ''B'', ''C''] \<in> set [[''A'', ''B'', ''C'']]" by simp
  have mat: "materialize_group fs_strip [''A'', ''B'', ''C'']
       = Inr \<lparr>canvas_size = (240, 50), pastes = [(0, 0), (80, 0), (160, 0)]\<rparr>"
    by (simp add: materialize_group_def fs_strip_def get_image_def py_index_0 pil_size_def
          shape_solid enumerate_eq_zip upt_rec [of 0] upt_rec [of 1] upt_rec [of 2] numeral_3_eq_3)
  from composite_layout [OF m g] m mat show ?thesis
    by (simp add: pil_size_def shape_solid fs_strip_def)
qed

text \<open>
  C9. In every group the engine returns, each member after the first is accepted by the
  comparator against the group's first member. Every call of the comparator has the
  first member of a returned group as its second argument, so, the listed paths being
  distinct, no call compares two members that are not first. Members after the first
  need not match each other: a group is returned whose second and third member the
  comparator rejects.
\<close>

theorem members_match_first:
  assumes "merge_artboard_group fs mse sketch_folders = (cs, Inr groups)"
  shows "(\<forall>g\<in>set groups. g \<noteq> [] \<and> (\<forall>m\<in>set (tl g). similar fs mse m (hd g)))
       \<and> (\<forall>c\<in>set cs. snd c \<in> hd ` set groups)
       \<and> (distinct (concat sketch_folders) \<longrightarrow> (\<forall>c\<in>set cs. \<forall>g\<in>set groups. snd c \<notin> set (tl g)))
       \<and> (\<exists>fs' folders' cs' groups' g m m'.
             merge_artboard_group fs' mse_mean folders' = (cs', Inr groups') \<and> g \<in> set groups'
           \<and> m \<in> set (tl g) \<and> m' \<in> set (tl g) \<and> compare_paths fs' mse_mean m m' = Inr False)"
proof -
  from assms obtain sg where m: "mset (concat groups) = mset (concat sketch_folders)"
    and rep: "\<forall>g\<in>set groups. represented fs mse g"
    and heads: "snd ` set cs \<subseteq> hd ` set groups"
    by (rule merge_artboard_group_result)
  have one: "\<forall>g\<in>set groups. g \<noteq> [] \<and> (\<forall>m\<in>set (tl g). similar fs mse m (hd g))"
    using rep by (simp add: represented_def list_all_iff)
  have two: "\<forall>c\<in>set cs. snd c \<in> hd ` set groups"
    using heads by blast
  have three: "\<forall>c\<in>set cs. \<forall>g\<in>set groups. snd c \<notin> set (tl g)"
    if dist: "distinct (concat sketch_folders)"
  proof (intro ballI notI)
    fix c g assume c: "c \<in> set cs" and g: "g \<in> set groups" and mem: "snd c \<in> set (tl g)"
    from two c obtain g0 where g0: "g0 \<in> set groups" "snd c = hd g0" by auto
    from one g0 g have ne: "g0 \<noteq> []" "g \<noteq> []" by auto
    have d: "distinct (concat groups)"
      using m dist by (metis mset_eq_imp_distinct_iff)
    from g obtain i where i: "i < length groups" "groups ! i = g"
      by (auto simp: in_set_conv_nth)
    from g0 obtain j where j: "j < length groups" "groups ! j = g0"
      by (auto simp: in_set_conv_nth)
    have in_g: "snd c \<in> set g" using mem ne by (cases g) auto
    have in_g0: "snd c \<in> set g0" using g0 ne by simp
    show False
    proof (cases "i = j")
      case True
      with i j have "g = g0" by simp
      with ne g0 mem have "\<not> distinct g" by (cases g) auto
      moreover have "distinct g" using d g by (simp add: distinct_concat_iff)
      ultimately show False by simp
    next
      case False
      from distinct_concat_disjoint [OF d i(1) j(1) False] i j in_g in_g0
      show False by auto
    qed
  qed
  have four: "\<exists>fs' folders' cs' groups' g m m'.
             merge_artboard_group fs' mse_mean folders' = (cs', Inr groups') \<and> g \<in> set groups'
           \<and> m \<in> set (tl g) \<and> m' \<in> set (tl g) \<and> compare_paths fs' mse_mean m m' = Inr False"
  proof (intro exI conjI)
    show "merge_artboard_group fs_chain mse_mean [[''A'', ''B'', ''C'']]
     = ([(''B'', ''A''), (''C'', ''A'')], Inr [[''A'', ''B'', ''C'']])"
      by (rule merge_fs_chain)
    show "[''A'', ''B'', ''C''] \<in> set [[''A'', ''B'', ''C'']]" by simp
    show "''B'' \<in> set (tl [''A'', ''B'', ''C''])" by simp
    show "''C'' \<in> set (tl [''A'', ''B'', ''C''])" by simp
    show "compare_paths fs_chain mse_mean ''B'' ''C'' = Inr False"
      by (rule chain_not_mutual)
  qed
  from one two three four show ?thesis by blast
qed

theorem members_match_first_witness:
  "merge_artboard_group fs_chain mse_mean [[''A'', ''B'', ''C'']]
     = ([(''B'', ''A''), (''C'', ''A'')], Inr [[''A'', ''B'', ''C'']])
   \<and> similar fs_chain mse_mean ''B'' ''A'' \<and> similar fs_chain mse_mean ''C'' ''A''
   \<and> \<not> similar fs_chain mse_mean ''B'' ''C'' \<and> \<not> similar fs_chain mse_mean ''C'' ''B''"
  using members_match_first [OF merge_fs_chain] merge_fs_chain chain_not_mutual
  by (simp add: similar_def)

text \<open>
  C10. The comparator reads \<^verbatim>\<open>shape[2]\<close> of both images before it slices them. On an
  image decoded as a two-axis grayscale array, as either argument, that index is past
  the end of the shape: the call raises \<open>IndexError\<close> and returns no boolean, whatever
  the metric is. The same holds for any array with fewer than three axes.
\<close>

theorem compare_image_two_axes:
  "length (shape image1) < 3 \<or> length (shape image2) < 3 \<Longrightarrow>
   compare_image mse image1 image2 = Inl IndexError"
  by (auto simp: compare_image_def py_index_def bind_err_def split: sum.splits)

theorem compare_image_two_axes_witness:
  "length (shape gray2) = 2 \<and>
   compare_image mse_mean gray2 (solid 2 2 0) = Inl IndexError \<and>
   compare_image mse_mean (solid 2 2 0) gray2 = Inl IndexError \<and>
   compare_image mse_mean gray2 gray2 = Inl IndexError \<and>
   compare_image mse_mean (solid 2 2 0) (solid 2 2 0) = Inr True"
  using compare_image_two_axes [of gray2 "solid 2 2 0" mse_mean]
    compare_image_two_axes [of "solid 2 2 0" gray2 mse_mean]
    compare_image_two_axes [of gray2 gray2 mse_mean]
  by (simp add: gray2_def compare_image_solid)

end
